theory Spec2Isabelle
  imports Main
begin

section \<open>Values, exceptions and the wrapped client\<close>

text \<open>
  The module \<^verbatim>\<open>asyncHarmon.py\<close> holds one class, \<^verbatim>\<open>AsyncHarmonicWrapper\<close>. It owns a
  thread pool and a reference to a client of the remote API, and runs batches of calls of
  that client on the pool.

  A Python exception is a value of \<open>'x exn\<close>: the built-in exceptions the module itself can
  meet, and \<open>Failure x\<close> for whatever the remote client raises. A call that may raise
  returns \<open>'x exn + 'v\<close>, with \<open>Inl\<close> for the exception.
\<close>

datatype 'x exn = IndexError | TypeError | ValueError | Failure 'x

text \<open>
  A callable is applied to an unpacked argument tuple (\<^verbatim>\<open>f(*args)\<close>); the tuple is the
  list of its components. The remote client's operations are opaque: each is a function of
  its arguments, which terminates and either returns a value or raises.
\<close>

type_synonym ('a, 'x, 'v) callable = "'a list \<Rightarrow> 'x exn + 'v"

text \<open>
  \<^verbatim>\<open>harmonic.api.HarmonicClient\<close> is not part of the module. The record lists the
  operations of it that the batched entries of the wrapper use.
\<close>

record ('a, 'x, 'v) HarmonicClient =
  client_enrich_company :: "('a, 'x, 'v) callable"
  client_enrich_person :: "('a, 'x, 'v) callable"
  client_search :: "('a, 'x, 'v) callable"
  client_get_company_by_id :: "('a, 'x, 'v) callable"

section \<open>The worker pool\<close>

text \<open>
  Time is counted in milliseconds. A future records when its unit starts to run on a
  worker, when it reaches its terminal state, and the outcome it then holds.
\<close>

record ('x, 'v) future =
  started :: nat
  finish :: nat
  outcome :: "'x exn + 'v"

text \<open>
  Modelled from the spec: the worker pool is \<^verbatim>\<open>concurrent.futures.ThreadPoolExecutor\<close>,
  which the module imports and does not define. The spec gives it a fixed capacity; every
  unit is accepted at once, and units beyond the capacity queue until a worker frees up.
  A pool is the list of the times at which its workers become idle. It has at least one
  worker (the constructor below refuses any other count), hence the first component.
\<close>

datatype pool = Pool nat "nat list"

fun workers :: "pool \<Rightarrow> nat list" where
  "workers (Pool w ws) = w # ws"

text \<open>
  Modelled from the spec: \<^verbatim>\<open>pool.submit\<close>, of the same library class. In
  \<open>submit pl now d r\<close> a unit that runs for \<open>d\<close> milliseconds and ends with outcome
  \<open>r\<close> is handed to the pool at time \<open>now\<close>. All units are accepted at once; the unit is
  taken by the worker that is idle first, no earlier than \<open>now\<close>, so that it queues while
  every worker is busy, and it keeps its worker busy for \<open>d\<close> milliseconds.
\<close>

definition submit :: "pool \<Rightarrow> nat \<Rightarrow> nat \<Rightarrow> 'x exn + 'v \<Rightarrow> pool \<times> ('x, 'v) future" where
  "submit pl now d r =
     (case pl of Pool w ws \<Rightarrow>
        let m = fold min ws w;
            s = max now m;
            f = s + d
        in (Pool f (remove1 m (w # ws)), \<lparr>started = s, finish = f, outcome = r\<rparr>))"

text \<open>\<^verbatim>\<open>future.done()\<close> at time \<open>t\<close>, and \<^verbatim>\<open>future.result()\<close>, which blocks until
  the unit is terminal and then returns its value or raises its exception.\<close>

definition future_done :: "('x, 'v) future \<Rightarrow> nat \<Rightarrow> bool" where
  "future_done f t = (finish f \<le> t)"

definition future_result :: "('x, 'v) future \<Rightarrow> nat \<Rightarrow> ('x exn + 'v) \<times> nat" where
  "future_result f t = (outcome f, max t (finish f))"

section \<open>The wrapper\<close>

record ('a, 'x, 'v) AsyncHarmonicWrapper =
  numWorkers :: int
  rawClient :: "('a, 'x, 'v) HarmonicClient"
  pool :: pool

text \<open>
  Modelled from the spec: the constructor of the pool, of the same library class. The
  worker-pool size is a positive integer; the library raises \<^verbatim>\<open>ValueError\<close> for any
  other count. All workers of a new pool are idle.
\<close>

definition ThreadPoolExecutor :: "int \<Rightarrow> 'x exn + pool" where
  "ThreadPoolExecutor max_workers =
     (if max_workers \<le> 0 then Inl ValueError
      else Inr (Pool 0 (replicate (nat max_workers - 1) 0)))"

text \<open>\<^verbatim>\<open>__init__(self, harmonicClient, numWorkers=10)\<close>.\<close>

definition init :: "('a, 'x, 'v) HarmonicClient \<Rightarrow> int \<Rightarrow> 'x exn + ('a, 'x, 'v) AsyncHarmonicWrapper" where
  "init harmonicClient n =
     (case ThreadPoolExecutor n of
        Inl e \<Rightarrow> Inl e
      | Inr p \<Rightarrow> Inr \<lparr>numWorkers = n, rawClient = harmonicClient, pool = p\<rparr>)"

definition numWorkers_default :: int where
  "numWorkers_default = 10"

definition init_default :: "('a, 'x, 'v) HarmonicClient \<Rightarrow> 'x exn + ('a, 'x, 'v) AsyncHarmonicWrapper" where
  "init_default harmonicClient = init harmonicClient numWorkers_default"

section \<open>The batch execution engine\<close>

text \<open>
  What the calling thread can observe besides the value it gets back: the clock, and the
  calls it makes to \<^verbatim>\<open>future.done()\<close> and \<^verbatim>\<open>time.sleep\<close>, in order.
\<close>

datatype event = Checked nat | Slept nat

record world =
  clock :: nat
  trace :: "event list"

text \<open>
  The submission loop, \<^verbatim>\<open>for i in range(len(listOfCallables))\<close>, over the list of
  the indices. \<^verbatim>\<open>listOfCallables[i]\<close> and \<^verbatim>\<open>listOfParamTuples[i]\<close> raise
  \<^verbatim>\<open>IndexError\<close> out of range, the latter when there are fewer tuples than callables.
  The unit's outcome is what the callable does on the unpacked tuple. \<open>lat i\<close> is the
  time the \<open>i\<close>-th unit of the batch runs for once a worker has taken it: it is not known
  to the program, and the theorems hold for every \<open>lat\<close>.
\<close>

fun submit_all ::
  "(nat \<Rightarrow> nat) \<Rightarrow> nat \<Rightarrow> ('a, 'x, 'v) callable list \<Rightarrow> 'a list list \<Rightarrow> nat list \<Rightarrow>
   pool \<Rightarrow> ('x, 'v) future list \<Rightarrow> ('x exn + ('x, 'v) future list) \<times> pool" where
  "submit_all lat now listOfCallables listOfParamTuples [] pl futureObjs = (Inr futureObjs, pl)"
| "submit_all lat now listOfCallables listOfParamTuples (i # is) pl futureObjs =
     (if i < length listOfCallables \<and> i < length listOfParamTuples then
        (case submit pl now (lat i) ((listOfCallables ! i) (listOfParamTuples ! i)) of
           (pl', futureObj) \<Rightarrow>
             submit_all lat now listOfCallables listOfParamTuples is pl' (futureObjs @ [futureObj]))
      else (Inl IndexError, pl))"

text \<open>
  One pass of \<^verbatim>\<open>for future in futureObjs\<close>: at the first future that is not done the
  thread sleeps 0.2 seconds and leaves the \<^verbatim>\<open>for\<close> loop (\<^verbatim>\<open>break\<close>).
\<close>

fun scan :: "('x, 'v) future list \<Rightarrow> nat \<Rightarrow> world \<Rightarrow> world" where
  "scan [] i w = w"
| "scan (f # fs) i w =
     (if \<not> future_done f (clock w) then
        \<lparr>clock = clock w + 200, trace = trace w @ [Checked i, Slept 200]\<rparr>
      else scan fs (Suc i) (w\<lparr>trace := trace w @ [Checked i]\<rparr>))"

text \<open>
  \<^verbatim>\<open>while not fullyResolved\<close>: the body is the pass above followed by
  \<^verbatim>\<open>fullyResolved = True\<close>, which stands after the \<^verbatim>\<open>for\<close> loop at the level of the
  \<^verbatim>\<open>while\<close> body and so is executed whether or not the pass was left by \<^verbatim>\<open>break\<close>.
\<close>

function wait_loop :: "('x, 'v) future list \<Rightarrow> bool \<Rightarrow> world \<Rightarrow> world" where
  "wait_loop futureObjs fullyResolved w =
     (if \<not> fullyResolved then wait_loop futureObjs True (scan futureObjs 0 w) else w)"
  by pat_completeness auto
termination
  by (relation "measure (\<lambda>(futureObjs, fullyResolved, w). if fullyResolved then 0 else 1)") auto

text \<open>
  \<^verbatim>\<open>[futureObj.result() for futureObj in futureObjs]\<close>: the results are taken in the
  order of the futures; each call blocks until its future is terminal, and the first one
  that raises ends the comprehension.
\<close>

fun collect :: "('x, 'v) future list \<Rightarrow> nat \<Rightarrow> ('x exn + 'v list) \<times> nat" where
  "collect [] t = (Inr [], t)"
| "collect (f # fs) t =
     (case future_result f t of
        (Inl e, t') \<Rightarrow> (Inl e, t')
      | (Inr v, t') \<Rightarrow>
          (case collect fs t' of
             (Inl e, t'') \<Rightarrow> (Inl e, t'')
           | (Inr vs, t'') \<Rightarrow> (Inr (v # vs), t'')))"

text \<open>
  \<^verbatim>\<open>_parralelizeCallables(self, listOfCallables, listOfParamTuples)\<close>. Besides the value
  returned or the exception raised it gives the pool and the world as the call leaves them.
\<close>

definition parralelizeCallables ::
  "('a, 'x, 'v) AsyncHarmonicWrapper \<Rightarrow> (nat \<Rightarrow> nat) \<Rightarrow> world \<Rightarrow>
   ('a, 'x, 'v) callable list \<Rightarrow> 'a list list \<Rightarrow>
   ('x exn + 'v list) \<times> ('a, 'x, 'v) AsyncHarmonicWrapper \<times> world" where
  "parralelizeCallables self lat w listOfCallables listOfParamTuples =
     (case submit_all lat (clock w) listOfCallables listOfParamTuples
             [0..<length listOfCallables] (pool self) [] of
        (Inl e, pl) \<Rightarrow> (Inl e, self\<lparr>pool := pl\<rparr>, w)
      | (Inr futureObjs, pl) \<Rightarrow>
          (let w1 = wait_loop futureObjs False w in
           case collect futureObjs (clock w1) of
             (results, t) \<Rightarrow> (results, self\<lparr>pool := pl\<rparr>, w1\<lparr>clock := t\<rparr>)))"

definition answer :: "'r \<times> 's \<times> world \<Rightarrow> 'r" where
  "answer out = fst out"

definition returned_at :: "'r \<times> 's \<times> world \<Rightarrow> nat" where
  "returned_at out = clock (snd (snd out))"

section \<open>The operation catalog\<close>

text \<open>
  A method of one parameter used as a callable: applied to an unpacked tuple of any other
  length the call itself raises \<^verbatim>\<open>TypeError\<close>, before the body runs.
\<close>

definition bound1 :: "('a \<Rightarrow> 'x exn + 'v) \<Rightarrow> ('a, 'x, 'v) callable" where
  "bound1 m args = (case args of [x] \<Rightarrow> m x | _ \<Rightarrow> Inl TypeError)"

definition enrich_company :: "('a, 'x, 'v) AsyncHarmonicWrapper \<Rightarrow> 'a \<Rightarrow> 'x exn + 'v" where
  "enrich_company self url_or_enrichment_request =
     client_enrich_company (rawClient self) [url_or_enrichment_request]"

definition enrich_person :: "('a, 'x, 'v) AsyncHarmonicWrapper \<Rightarrow> 'a \<Rightarrow> 'x exn + 'v" where
  "enrich_person self url = client_enrich_person (rawClient self) [url]"

definition search :: "('a, 'x, 'v) AsyncHarmonicWrapper \<Rightarrow> 'a \<Rightarrow> 'a \<Rightarrow> 'a \<Rightarrow> 'a \<Rightarrow> 'x exn + 'v" where
  "search self keywords_or_query page page_size include_results =
     client_search (rawClient self) [keywords_or_query, page, page_size, include_results]"

definition get_company_by_id :: "('a, 'x, 'v) AsyncHarmonicWrapper \<Rightarrow> 'a \<Rightarrow> 'x exn + 'v" where
  "get_company_by_id self id' = client_get_company_by_id (rawClient self) [id']"

text \<open>
  The list of callables is built by a loop that appends the same operation once for every
  index of the input list.
\<close>

fun append_callables ::
  "('a, 'x, 'v) callable \<Rightarrow> nat list \<Rightarrow> ('a, 'x, 'v) callable list \<Rightarrow> ('a, 'x, 'v) callable list" where
  "append_callables c [] callableList = callableList"
| "append_callables c (i # is) callableList = append_callables c is (callableList @ [c])"

definition enrich_companies ::
  "('a, 'x, 'v) AsyncHarmonicWrapper \<Rightarrow> (nat \<Rightarrow> nat) \<Rightarrow> world \<Rightarrow> 'a list \<Rightarrow>
   ('x exn + 'v list) \<times> ('a, 'x, 'v) AsyncHarmonicWrapper \<times> world" where
  "enrich_companies self lat w url_or_enrichment_requests =
     (let argumentTupleList = map (\<lambda>urlArg. [urlArg]) url_or_enrichment_requests;
          callableList = append_callables (client_enrich_company (rawClient self))
                           [0..<length url_or_enrichment_requests] []
      in parralelizeCallables self lat w callableList argumentTupleList)"

definition enrich_people ::
  "('a, 'x, 'v) AsyncHarmonicWrapper \<Rightarrow> (nat \<Rightarrow> nat) \<Rightarrow> world \<Rightarrow> 'a list \<Rightarrow>
   ('x exn + 'v list) \<times> ('a, 'x, 'v) AsyncHarmonicWrapper \<times> world" where
  "enrich_people self lat w listOfURLS =
     (let arugmentTupleList = map (\<lambda>url. [url]) listOfURLS;
          callableList = append_callables (client_enrich_person (rawClient self))
                           [0..<length listOfURLS] []
      in parralelizeCallables self lat w callableList arugmentTupleList)"

definition batch_searches ::
  "('a, 'x, 'v) AsyncHarmonicWrapper \<Rightarrow> (nat \<Rightarrow> nat) \<Rightarrow> world \<Rightarrow> 'a list list \<Rightarrow>
   ('x exn + 'v list) \<times> ('a, 'x, 'v) AsyncHarmonicWrapper \<times> world" where
  "batch_searches self lat w listOfArgTuples =
     (let callableList = append_callables (client_search (rawClient self))
                           [0..<length listOfArgTuples] []
      in parralelizeCallables self lat w callableList listOfArgTuples)"

text \<open>
  \<^verbatim>\<open>safe_get_company_by_urn\<close>: the lookup inside \<^verbatim>\<open>try\<close>, and a bare \<^verbatim>\<open>except\<close>
  that returns \<^verbatim>\<open>None\<close>. The values of this client are optional: \<open>None\<close> is Python's
  \<^verbatim>\<open>None\<close>.
\<close>

definition safe_get_company_by_urn ::
  "('a, 'x, 'r option) AsyncHarmonicWrapper \<Rightarrow> 'a \<Rightarrow> 'x exn + 'r option" where
  "safe_get_company_by_urn self urn =
     (case client_get_company_by_id (rawClient self) [urn] of
        Inr v \<Rightarrow> Inr v
      | Inl e \<Rightarrow> Inr None)"

definition batch_safe_get_company_by_urn ::
  "('a, 'x, 'r option) AsyncHarmonicWrapper \<Rightarrow> (nat \<Rightarrow> nat) \<Rightarrow> world \<Rightarrow> 'a list \<Rightarrow>
   ('x exn + 'r option list) \<times> ('a, 'x, 'r option) AsyncHarmonicWrapper \<times> world" where
  "batch_safe_get_company_by_urn self lat w listOfURNs =
     (let paramTupleList = map (\<lambda>urn. [urn]) listOfURNs;
          callableList = map (\<lambda>i. bound1 (safe_get_company_by_urn self)) [0..<length listOfURNs]
      in parralelizeCallables self lat w callableList paramTupleList)"

text \<open>
  The batched shape in the spec's words: one work unit per item, every unit with the same
  operation, the whole list handed to the engine, and the engine's result handed back.
\<close>

definition batched_spec ::
  "('a, 'x, 'v) AsyncHarmonicWrapper \<Rightarrow> (nat \<Rightarrow> nat) \<Rightarrow> world \<Rightarrow>
   ('a, 'x, 'v) callable \<Rightarrow> 'a list list \<Rightarrow>
   ('x exn + 'v list) \<times> ('a, 'x, 'v) AsyncHarmonicWrapper \<times> world" where
  "batched_spec self lat w operation items =
     parralelizeCallables self lat w (map (\<lambda>item. operation) items) items"

section \<open>Observations on a batch\<close>

text \<open>
  The futures a call of the engine creates, and those of them whose unit is running on a
  worker at time \<open>t\<close>.
\<close>

definition futures_of ::
  "('a, 'x, 'v) AsyncHarmonicWrapper \<Rightarrow> (nat \<Rightarrow> nat) \<Rightarrow> world \<Rightarrow>
   ('a, 'x, 'v) callable list \<Rightarrow> 'a list list \<Rightarrow> ('x, 'v) future list" where
  "futures_of self lat w listOfCallables listOfParamTuples =
     (case submit_all lat (clock w) listOfCallables listOfParamTuples
             [0..<length listOfCallables] (pool self) [] of
        (Inl e, pl) \<Rightarrow> []
      | (Inr futureObjs, pl) \<Rightarrow> futureObjs)"

definition running :: "('x, 'v) future list \<Rightarrow> nat \<Rightarrow> ('x, 'v) future list" where
  "running futs t = filter (\<lambda>f. started f \<le> t \<and> t < finish f) futs"

text \<open>
  A wrapper and its pool live through many calls of the engine. A batch is what one call
  is given, with the running times of its units and the world at the time of the call;
  \<open>paired\<close> says that it has as many parameter tuples as callables. A history is the list
  of the batches a wrapper has been given, in order: \<open>after_batches\<close> is the wrapper as
  the history leaves it and \<open>futures_of_batches\<close> are the futures of all its units.
\<close>

type_synonym ('a, 'x, 'v) batch =
  "(nat \<Rightarrow> nat) \<times> world \<times> ('a, 'x, 'v) callable list \<times> 'a list list"

definition wrapper_after :: "'r \<times> 's \<times> world \<Rightarrow> 's" where
  "wrapper_after out = fst (snd out)"

definition submitted_at :: "('a, 'x, 'v) batch \<Rightarrow> nat" where
  "submitted_at b = (case b of (lat, w, cs, ps) \<Rightarrow> clock w)"

definition paired :: "('a, 'x, 'v) batch \<Rightarrow> bool" where
  "paired b = (case b of (lat, w, cs, ps) \<Rightarrow> length ps = length cs)"

fun after_batches ::
  "('a, 'x, 'v) AsyncHarmonicWrapper \<Rightarrow> ('a, 'x, 'v) batch list \<Rightarrow>
   ('a, 'x, 'v) AsyncHarmonicWrapper" where
  "after_batches self [] = self"
| "after_batches self ((lat, w, cs, ps) # bs) =
     after_batches (wrapper_after (parralelizeCallables self lat w cs ps)) bs"

fun futures_of_batches ::
  "('a, 'x, 'v) AsyncHarmonicWrapper \<Rightarrow> ('a, 'x, 'v) batch list \<Rightarrow> ('x, 'v) future list" where
  "futures_of_batches self [] = []"
| "futures_of_batches self ((lat, w, cs, ps) # bs) =
     futures_of self lat w cs ps @
     futures_of_batches (wrapper_after (parralelizeCallables self lat w cs ps)) bs"

text \<open>The workers of a pool that are occupied beyond time \<open>t\<close>.\<close>

definition busy :: "pool \<Rightarrow> nat \<Rightarrow> nat list" where
  "busy pl t = filter (\<lambda>x. t < x) (workers pl)"

text \<open>
  The outcomes of the units of a batch in the order of the batch, and what a list of
  outcomes amounts to when its values are taken in order up to the first exception.
\<close>

definition units :: "('a, 'x, 'v) callable list \<Rightarrow> 'a list list \<Rightarrow> ('x exn + 'v) list" where
  "units cs ps = map (\<lambda>i. (cs ! i) (ps ! i)) [0..<length cs]"

fun gather :: "('e + 'v) list \<Rightarrow> 'e + 'v list" where
  "gather [] = Inr []"
| "gather (Inl e # rs) = Inl e"
| "gather (Inr v # rs) = (case gather rs of Inl e \<Rightarrow> Inl e | Inr vs \<Rightarrow> Inr (v # vs))"

section \<open>The engine over a store of list objects\<close>

text \<open>
  Python lists are mutable objects that the caller and the engine share by reference. To
  say what a call does to them, the lists live in a store: a list is an address, the
  store gives the list object at every address, and \<open>fresh\<close> is the next address to be
  allocated. The list objects of the module hold callables, argument tuples, plain
  arguments, futures or result values. An operation that finds a list of another kind
  than the one it works on is outside the typed inputs; the model lets it raise
  \<^verbatim>\<open>TypeError\<close>.
\<close>

type_synonym addr = nat

datatype ('a, 'x, 'v) pylist =
    Callables "('a, 'x, 'v) callable list"
  | Tuples "'a list list"
  | Items "'a list"
  | Futures "('x, 'v) future list"
  | Values "'v list"

record ('a, 'x, 'v) store =
  list_at :: "addr \<Rightarrow> ('a, 'x, 'v) pylist"
  fresh :: addr

definition new_list :: "('a, 'x, 'v) store \<Rightarrow> ('a, 'x, 'v) pylist \<Rightarrow> ('a, 'x, 'v) store \<times> addr" where
  "new_list s l = (s\<lparr>list_at := (list_at s)(fresh s := l), fresh := Suc (fresh s)\<rparr>, fresh s)"

definition callables_at :: "('a, 'x, 'v) store \<Rightarrow> addr \<Rightarrow> ('a, 'x, 'v) callable list option" where
  "callables_at s a = (case list_at s a of Callables cs \<Rightarrow> Some cs | _ \<Rightarrow> None)"

definition tuples_at :: "('a, 'x, 'v) store \<Rightarrow> addr \<Rightarrow> 'a list list option" where
  "tuples_at s a = (case list_at s a of Tuples ps \<Rightarrow> Some ps | _ \<Rightarrow> None)"

definition items_at :: "('a, 'x, 'v) store \<Rightarrow> addr \<Rightarrow> 'a list option" where
  "items_at s a = (case list_at s a of Items xs \<Rightarrow> Some xs | _ \<Rightarrow> None)"

definition futures_at :: "('a, 'x, 'v) store \<Rightarrow> addr \<Rightarrow> ('x, 'v) future list option" where
  "futures_at s a = (case list_at s a of Futures fs \<Rightarrow> Some fs | _ \<Rightarrow> None)"

text \<open>\<^verbatim>\<open>futureObjs.append(futureObj)\<close> and \<^verbatim>\<open>callableList.append(...)\<close>: the list
  object at the address is replaced by the longer one.\<close>

definition append_future ::
  "('a, 'x, 'v) store \<Rightarrow> addr \<Rightarrow> ('x, 'v) future \<Rightarrow> 'x exn + ('a, 'x, 'v) store" where
  "append_future s l f =
     (case futures_at s l of
        None \<Rightarrow> Inl TypeError
      | Some fs \<Rightarrow> Inr (s\<lparr>list_at := (list_at s)(l := Futures (fs @ [f]))\<rparr>))"

definition append_callable ::
  "('a, 'x, 'v) store \<Rightarrow> addr \<Rightarrow> ('a, 'x, 'v) callable \<Rightarrow> 'x exn + ('a, 'x, 'v) store" where
  "append_callable s l c =
     (case callables_at s l of
        None \<Rightarrow> Inl TypeError
      | Some cs \<Rightarrow> Inr (s\<lparr>list_at := (list_at s)(l := Callables (cs @ [c]))\<rparr>))"

text \<open>The submission loop, reading the two lists of the caller through their addresses
  at every index and appending each future to the list at \<open>futureObjs\<close>.\<close>

fun submit_all_st ::
  "(nat \<Rightarrow> nat) \<Rightarrow> nat \<Rightarrow> addr \<Rightarrow> addr \<Rightarrow> addr \<Rightarrow> nat list \<Rightarrow> pool \<Rightarrow> ('a, 'x, 'v) store \<Rightarrow>
   ('x exn + unit) \<times> pool \<times> ('a, 'x, 'v) store" where
  "submit_all_st lat now listOfCallables listOfParamTuples futureObjs [] pl s = (Inr (), pl, s)"
| "submit_all_st lat now listOfCallables listOfParamTuples futureObjs (i # is) pl s =
     (case callables_at s listOfCallables of
        None \<Rightarrow> (Inl TypeError, pl, s)
      | Some cs \<Rightarrow>
          (case tuples_at s listOfParamTuples of
             None \<Rightarrow> (Inl TypeError, pl, s)
           | Some ps \<Rightarrow>
               if i < length cs \<and> i < length ps then
                 (case submit pl now (lat i) ((cs ! i) (ps ! i)) of
                    (pl', futureObj) \<Rightarrow>
                      (case append_future s futureObjs futureObj of
                         Inl e \<Rightarrow> (Inl e, pl', s)
                       | Inr s' \<Rightarrow>
                           submit_all_st lat now listOfCallables listOfParamTuples futureObjs
                             is pl' s'))
               else (Inl IndexError, pl, s)))"

text \<open>
  The engine on addresses. \<^verbatim>\<open>futureObjs = []\<close> and the list comprehension of the
  results each make a new list object; the result of the call is the address of the
  latter.
\<close>

definition parralelizeCallables_st ::
  "('a, 'x, 'v) AsyncHarmonicWrapper \<Rightarrow> (nat \<Rightarrow> nat) \<Rightarrow> world \<Rightarrow> ('a, 'x, 'v) store \<Rightarrow>
   addr \<Rightarrow> addr \<Rightarrow>
   ('x exn + addr) \<times> ('a, 'x, 'v) AsyncHarmonicWrapper \<times> world \<times> ('a, 'x, 'v) store" where
  "parralelizeCallables_st self lat w s listOfCallables listOfParamTuples =
     (case new_list s (Futures []) of
        (s1, futureObjs) \<Rightarrow>
          (case callables_at s1 listOfCallables of
             None \<Rightarrow> (Inl TypeError, self, w, s1)
           | Some cs \<Rightarrow>
               (case submit_all_st lat (clock w) listOfCallables listOfParamTuples futureObjs
                       [0..<length cs] (pool self) s1 of
                  (Inl e, pl, s2) \<Rightarrow> (Inl e, self\<lparr>pool := pl\<rparr>, w, s2)
                | (Inr u, pl, s2) \<Rightarrow>
                    (case futures_at s2 futureObjs of
                       None \<Rightarrow> (Inl TypeError, self\<lparr>pool := pl\<rparr>, w, s2)
                     | Some fs \<Rightarrow>
                         (let w1 = wait_loop fs False w in
                          case collect fs (clock w1) of
                            (Inl e, t) \<Rightarrow> (Inl e, self\<lparr>pool := pl\<rparr>, w1\<lparr>clock := t\<rparr>, s2)
                          | (Inr vs, t) \<Rightarrow>
                              (case new_list s2 (Values vs) of
                                 (s3, results) \<Rightarrow>
                                   (Inr results, self\<lparr>pool := pl\<rparr>, w1\<lparr>clock := t\<rparr>, s3)))))))"

text \<open>
  \<open>extends s s'\<close>: every list object that is allocated in \<open>s\<close> is the same object,
  with the same elements, in \<open>s'\<close>; only new lists may have been added.
\<close>

definition extends :: "('a, 'x, 'v) store \<Rightarrow> ('a, 'x, 'v) store \<Rightarrow> bool" where
  "extends s s' = (fresh s \<le> fresh s' \<and> (\<forall>a<fresh s. list_at s' a = list_at s a))"

definition store_after :: "'r \<times> 'w \<times> world \<times> ('a, 'x, 'v) store \<Rightarrow> ('a, 'x, 'v) store" where
  "store_after out = snd (snd (snd out))"

text \<open>The loop that fills \<^verbatim>\<open>callableList\<close>, and the batched entries on addresses.\<close>

fun append_callables_st ::
  "('a, 'x, 'v) callable \<Rightarrow> nat list \<Rightarrow> addr \<Rightarrow> ('a, 'x, 'v) store \<Rightarrow> 'x exn + ('a, 'x, 'v) store" where
  "append_callables_st c [] callableList s = Inr s"
| "append_callables_st c (i # is) callableList s =
     (case append_callable s callableList c of
        Inl e \<Rightarrow> Inl e
      | Inr s' \<Rightarrow> append_callables_st c is callableList s')"

definition enrich_companies_st ::
  "('a, 'x, 'v) AsyncHarmonicWrapper \<Rightarrow> (nat \<Rightarrow> nat) \<Rightarrow> world \<Rightarrow> ('a, 'x, 'v) store \<Rightarrow> addr \<Rightarrow>
   ('x exn + addr) \<times> ('a, 'x, 'v) AsyncHarmonicWrapper \<times> world \<times> ('a, 'x, 'v) store" where
  "enrich_companies_st self lat w s url_or_enrichment_requests =
     (case items_at s url_or_enrichment_requests of
        None \<Rightarrow> (Inl TypeError, self, w, s)
      | Some urls \<Rightarrow>
          (case new_list s (Tuples (map (\<lambda>urlArg. [urlArg]) urls)) of
             (s1, argumentTupleList) \<Rightarrow>
               (case new_list s1 (Callables []) of
                  (s2, callableList) \<Rightarrow>
                    (case append_callables_st (client_enrich_company (rawClient self))
                            [0..<length urls] callableList s2 of
                       Inl e \<Rightarrow> (Inl e, self, w, s2)
                     | Inr s3 \<Rightarrow>
                         parralelizeCallables_st self lat w s3 callableList argumentTupleList))))"

definition enrich_people_st ::
  "('a, 'x, 'v) AsyncHarmonicWrapper \<Rightarrow> (nat \<Rightarrow> nat) \<Rightarrow> world \<Rightarrow> ('a, 'x, 'v) store \<Rightarrow> addr \<Rightarrow>
   ('x exn + addr) \<times> ('a, 'x, 'v) AsyncHarmonicWrapper \<times> world \<times> ('a, 'x, 'v) store" where
  "enrich_people_st self lat w s listOfURLS =
     (case items_at s listOfURLS of
        None \<Rightarrow> (Inl TypeError, self, w, s)
      | Some urls \<Rightarrow>
          (case new_list s (Tuples (map (\<lambda>url. [url]) urls)) of
             (s1, arugmentTupleList) \<Rightarrow>
               (case new_list s1 (Callables []) of
                  (s2, callableList) \<Rightarrow>
                    (case append_callables_st (client_enrich_person (rawClient self))
                            [0..<length urls] callableList s2 of
                       Inl e \<Rightarrow> (Inl e, self, w, s2)
                     | Inr s3 \<Rightarrow>
                         parralelizeCallables_st self lat w s3 callableList arugmentTupleList))))"

definition batch_searches_st ::
  "('a, 'x, 'v) AsyncHarmonicWrapper \<Rightarrow> (nat \<Rightarrow> nat) \<Rightarrow> world \<Rightarrow> ('a, 'x, 'v) store \<Rightarrow> addr \<Rightarrow>
   ('x exn + addr) \<times> ('a, 'x, 'v) AsyncHarmonicWrapper \<times> world \<times> ('a, 'x, 'v) store" where
  "batch_searches_st self lat w s listOfArgTuples =
     (case tuples_at s listOfArgTuples of
        None \<Rightarrow> (Inl TypeError, self, w, s)
      | Some tuples \<Rightarrow>
          (case new_list s (Callables []) of
             (s1, callableList) \<Rightarrow>
               (case append_callables_st (client_search (rawClient self))
                       [0..<length tuples] callableList s1 of
                  Inl e \<Rightarrow> (Inl e, self, w, s1)
                | Inr s2 \<Rightarrow>
                    parralelizeCallables_st self lat w s2 callableList listOfArgTuples)))"

definition batch_safe_get_company_by_urn_st ::
  "('a, 'x, 'r option) AsyncHarmonicWrapper \<Rightarrow> (nat \<Rightarrow> nat) \<Rightarrow> world \<Rightarrow>
   ('a, 'x, 'r option) store \<Rightarrow> addr \<Rightarrow>
   ('x exn + addr) \<times> ('a, 'x, 'r option) AsyncHarmonicWrapper \<times> world \<times> ('a, 'x, 'r option) store" where
  "batch_safe_get_company_by_urn_st self lat w s listOfURNs =
     (case items_at s listOfURNs of
        None \<Rightarrow> (Inl TypeError, self, w, s)
      | Some urns \<Rightarrow>
          (case new_list s (Tuples (map (\<lambda>urn. [urn]) urns)) of
             (s1, paramTupleList) \<Rightarrow>
               (case new_list s1
                       (Callables (map (\<lambda>i. bound1 (safe_get_company_by_urn self))
                                     [0..<length urns])) of
                  (s2, callableList) \<Rightarrow>
                    parralelizeCallables_st self lat w s2 callableList paramTupleList)))"

section \<open>Sample inputs\<close>

text \<open>
  The spec's example operation \<^verbatim>\<open>double(x) = x*2\<close>, an operation that always raises, a
  lookup that fails on the identifier 2, and a wrapper with two workers as the
  constructor makes it.
\<close>

definition double :: "(int, string, int option) callable" where
  "double args = (case args of [x] \<Rightarrow> Inr (Some (x * 2)) | _ \<Rightarrow> Inl TypeError)"

definition failing :: "(int, string, int option) callable" where
  "failing args = Inl (Failure ''boom'')"

definition lookup_sample :: "(int, string, int option) callable" where
  "lookup_sample args =
     (case args of
        [urn] \<Rightarrow> if urn = 2 then Inl (Failure ''not found'') else Inr (Some (urn * 10))
      | _ \<Rightarrow> Inl TypeError)"

definition client_sample :: "(int, string, int option) HarmonicClient" where
  "client_sample =
     \<lparr>client_enrich_company = double, client_enrich_person = double,
      client_search = lookup_sample, client_get_company_by_id = lookup_sample\<rparr>"

definition wrapper_sample :: "(int, string, int option) AsyncHarmonicWrapper" where
  "wrapper_sample = \<lparr>numWorkers = 2, rawClient = client_sample, pool = Pool 0 [0]\<rparr>"

definition world_sample :: world where
  "world_sample = \<lparr>clock = 0, trace = []\<rparr>"

text \<open>Running times under which the third unit of a batch ends before the first.\<close>

definition lat_sample :: "nat \<Rightarrow> nat" where
  "lat_sample i = (if i = 0 then 500 else if i = 1 then 100 else 50)"

text \<open>Running times under which the first unit ends at once and the second runs for a
  second.\<close>

definition lat_slow_second :: "nat \<Rightarrow> nat" where
  "lat_slow_second i = (if i = 0 then 10 else 1000)"

text \<open>
  A history of one batch, three units on the two workers, and the world 200 milliseconds
  later, when that batch has left one worker idle and the other busy until 500.
\<close>

definition history_sample :: "(int, string, int option) batch list" where
  "history_sample = [(lat_sample, world_sample, [double, double, double], [[3], [4], [5]])]"

definition world_later :: world where
  "world_later = \<lparr>clock = 200, trace = []\<rparr>"

text \<open>A store that holds a list of three callables at address 0, a list of three
  argument tuples at address 1 and a list of three arguments at address 2.\<close>

definition store_sample :: "(int, string, int option) store" where
  "store_sample =
     \<lparr>list_at = (\<lambda>a. if a = 0 then Callables [double, double, double]
                   else if a = 1 then Tuples [[3], [4], [5]]
                   else if a = 2 then Items [3, 4, 5]
                   else Values []),
      fresh = 3\<rparr>"

section \<open>The value of a batch\<close>

lemma collect_gather: "fst (collect futs t) = gather (map outcome futs)"
proof (induction futs arbitrary: t)
  case Nil
  show ?case by simp
next
  case (Cons f fs)
  show ?case
  proof (cases "outcome f")
    case (Inl e)
    then show ?thesis by (simp add: future_result_def)
  next
    case (Inr v)
    obtain r t' where c: "collect fs (max t (finish f)) = (r, t')"
      by fastforce
    with Cons.IH [of "max t (finish f)"] have "gather (map outcome fs) = r"
      by simp
    with Inr c show ?thesis
      by (cases r) (simp_all add: future_result_def)
  qed
qed

lemma submit_outcome: "submit pl now d r = (pl', f) \<Longrightarrow> outcome f = r"
  by (auto simp: submit_def Let_def split: pool.splits)

lemma submit_all_ok:
  "\<forall>i \<in> set is. i < length cs \<and> i < length ps \<Longrightarrow>
   \<exists>pl' futs'. submit_all lat now cs ps is pl futs = (Inr (futs @ futs'), pl') \<and>
     map outcome futs' = map (\<lambda>i. (cs ! i) (ps ! i)) is"
proof (induction "is" arbitrary: pl futs)
  case Nil
  then show ?case by simp
next
  case (Cons i "is")
  obtain pl1 f where s: "submit pl now (lat i) ((cs ! i) (ps ! i)) = (pl1, f)"
    by (cases "submit pl now (lat i) ((cs ! i) (ps ! i))")
  from Cons.prems have "\<forall>i \<in> set is. i < length cs \<and> i < length ps" by simp
  from Cons.IH [OF this, of pl1 "futs @ [f]"] obtain pl' futs' where
    r: "submit_all lat now cs ps is pl1 (futs @ [f]) = (Inr ((futs @ [f]) @ futs'), pl')"
       "map outcome futs' = map (\<lambda>i. (cs ! i) (ps ! i)) is"
    by blast
  from Cons.prems have "i < length cs \<and> i < length ps" by simp
  with s r submit_outcome [OF s] show ?case by simp
qed

lemma submit_all_IndexError:
  "\<exists>i \<in> set is. \<not> (i < length cs \<and> i < length ps) \<Longrightarrow>
   fst (submit_all lat now cs ps is pl futs) = Inl IndexError"
  by (induction "is" arbitrary: pl futs) (auto split: prod.splits)

lemma engine_answer:
  "answer (parralelizeCallables self lat w cs ps) =
     (if length cs \<le> length ps then gather (units cs ps) else Inl IndexError)"
proof (cases "length cs \<le> length ps")
  case True
  then have "\<forall>i \<in> set [0..<length cs]. i < length cs \<and> i < length ps" by simp
  from submit_all_ok [OF this, of lat "clock w" "pool self" "[]"] obtain pl' futs' where
    "submit_all lat (clock w) cs ps [0..<length cs] (pool self) [] = (Inr futs', pl')"
    "map outcome futs' = map (\<lambda>i. (cs ! i) (ps ! i)) [0..<length cs]"
    by auto
  with True collect_gather [of futs' "clock (wait_loop futs' False w)"] show ?thesis
    by (auto simp: parralelizeCallables_def answer_def units_def Let_def split: prod.splits)
next
  case False
  then have "\<exists>i \<in> set [0..<length cs]. \<not> (i < length cs \<and> i < length ps)" by auto
  from submit_all_IndexError [OF this, of lat "clock w" "pool self" "[]"] False
  show ?thesis
    by (auto simp: parralelizeCallables_def answer_def split: prod.splits sum.splits)
qed

lemma units_nth: "i < length cs \<Longrightarrow> units cs ps ! i = (cs ! i) (ps ! i)"
  by (simp add: units_def)

lemma length_units: "length (units cs ps) = length cs"
  by (simp add: units_def)

lemma gather_Inr_iff: "gather rs = Inr vs \<longleftrightarrow> rs = map Inr vs"
proof (induction rs arbitrary: vs)
  case Nil
  show ?case by auto
next
  case (Cons r rs)
  show ?case
  proof (cases r)
    case (Inl e)
    then show ?thesis by auto
  next
    case (Inr v)
    with Cons.IH show ?thesis
      by (cases "gather rs") (auto simp: Cons_eq_map_conv)
  qed
qed

lemma gather_first_failure:
  "i < length rs \<Longrightarrow> rs ! i = Inl e \<Longrightarrow> \<forall>j<i. \<exists>v. rs ! j = Inr v \<Longrightarrow> gather rs = Inl e"
proof (induction rs arbitrary: i)
  case Nil
  then show ?case by simp
next
  case (Cons r rs)
  show ?case
  proof (cases i)
    case 0
    with Cons.prems show ?thesis by simp
  next
    case (Suc k)
    with Cons.prems(3) obtain v where r: "r = Inr v" by auto
    from Suc Cons.prems have "k < length rs" "rs ! k = Inl e" by simp_all
    moreover from Suc Cons.prems(3) have "\<forall>j<k. \<exists>v. rs ! j = Inr v" by auto
    ultimately have "gather rs = Inl e" by (rule Cons.IH)
    with r show ?thesis by simp
  qed
qed

lemma gather_Inl_D: "gather rs = Inl e \<Longrightarrow> \<exists>i<length rs. rs ! i = Inl e"
proof (induction rs)
  case Nil
  then show ?case by simp
next
  case (Cons r rs)
  show ?case
  proof (cases r)
    case (Inl e')
    with Cons.prems have "(r # rs) ! 0 = Inl e" by simp
    then show ?thesis by blast
  next
    case (Inr v)
    with Cons.prems have "gather rs = Inl e" by (simp split: sum.splits)
    then obtain i where "i < length rs" "rs ! i = Inl e" using Cons.IH by blast
    then have "Suc i < length (r # rs)" "(r # rs) ! Suc i = Inl e" by simp_all
    then show ?thesis by blast
  qed
qed

lemma gather_failure: "i < length rs \<Longrightarrow> rs ! i = Inl e \<Longrightarrow> \<exists>e'. gather rs = Inl e'"
proof -
  assume "i < length rs" "rs ! i = Inl e"
  then have "rs \<noteq> map Inr vs" for vs by (auto simp: list_eq_iff_nth_eq)
  then have "gather rs \<noteq> Inr vs" for vs by (simp add: gather_Inr_iff)
  then show ?thesis by (cases "gather rs") auto
qed

lemma gather_map: "gather (map f xs) = Inr (map g xs) \<longleftrightarrow> (\<forall>x \<in> set xs. f x = Inr (g x))"
  by (auto simp: gather_Inr_iff)


lemma gather_Inr_aligned:
  assumes "gather (units cs ps) = Inr rs"
  shows "length rs = length cs \<and> (\<forall>i<length cs. (cs ! i) (ps ! i) = Inr (rs ! i))"
proof -
  from assms have u: "units cs ps = map Inr rs" by (simp add: gather_Inr_iff)
  then have "length (units cs ps) = length rs" by simp
  then have l: "length rs = length cs" by (simp add: length_units)
  have "(cs ! i) (ps ! i) = Inr (rs ! i)" if "i < length cs" for i
    using that units_nth [of i cs ps] u l by simp
  with l show ?thesis by simp
qed

lemma gather_units_ok:
  assumes "\<forall>i<length cs. \<exists>v. (cs ! i) (ps ! i) = Inr v"
  shows "\<exists>rs. gather (units cs ps) = Inr rs"
proof (cases "gather (units cs ps)")
  case (Inr rs)
  then show ?thesis by simp
next
  case (Inl e)
  from gather_Inl_D [OF Inl] obtain i where i: "i < length (units cs ps)" "units cs ps ! i = Inl e"
    by blast
  from i(1) have l: "i < length cs" by (simp add: length_units)
  with i(2) have f: "(cs ! i) (ps ! i) = Inl e" by (simp add: units_nth)
  from assms l obtain v where "(cs ! i) (ps ! i) = Inr v" by blast
  with f show ?thesis by simp
qed

lemma all_less_3: "(\<forall>i<3::nat. P i) \<longleftrightarrow> P 0 \<and> P 1 \<and> P 2"
  by (simp only: numeral_3_eq_3 numeral_2_eq_2 All_less_Suc One_nat_def) auto

lemma length_3: "length rs = 3 \<Longrightarrow> \<exists>a b c. rs = [a, b, c]"
  by (simp only: numeral_3_eq_3 length_Suc_conv) auto

section \<open>Ordered results\<close>

text \<open>
  C1. For a batch of \<open>N\<close> work units, whatever the running times of the units and the
  state of the pool: a list that \<^verbatim>\<open>_parralelizeCallables\<close> returns has length \<open>N\<close> and
  its \<open>i\<close>-th element is what the \<open>i\<close>-th callable returns on the \<open>i\<close>-th parameter
  tuple; such a list is returned whenever every unit returns; and for \<open>N = 0\<close> the empty
  list is returned.
\<close>

theorem parralelizeCallables_ordered:
  assumes "length cs = N" and "length ps = N"
  shows "(\<forall>rs. answer (parralelizeCallables self lat w cs ps) = Inr rs \<longrightarrow>
            length rs = N \<and> (\<forall>i<N. (cs ! i) (ps ! i) = Inr (rs ! i))) \<and>
         ((\<forall>i<N. \<exists>v. (cs ! i) (ps ! i) = Inr v) \<longrightarrow>
            (\<exists>rs. answer (parralelizeCallables self lat w cs ps) = Inr rs)) \<and>
         (N = 0 \<longrightarrow> answer (parralelizeCallables self lat w cs ps) = Inr [])"
proof -
  from assms have N: "N = length cs" and p: "length cs \<le> length ps" by simp_all
  from p have a: "answer (parralelizeCallables self lat w cs ps) = gather (units cs ps)"
    by (simp add: engine_answer)
  have three: "gather (units cs ps) = Inr []" if "length cs = 0"
    using that by (simp add: units_def)
  show ?thesis
    unfolding N a using gather_Inr_aligned [of cs ps] gather_units_ok [of cs ps] three
    by blast
qed


theorem parralelizeCallables_ordered_witness:
  "length [double, double, double] = 3 \<and> length [[3], [4], [5 :: int]] = 3 \<and>
   answer (parralelizeCallables wrapper_sample lat_sample world_sample
             [double, double, double] [[3], [4], [5]])
     = Inr [Some 6, Some 8, Some 10]"
proof -
  let ?cs = "[double, double, double]" and ?ps = "[[3], [4], [5 :: int]]"
  let ?a = "answer (parralelizeCallables wrapper_sample lat_sample world_sample ?cs ?ps)"
  have l: "length ?cs = 3" "length ?ps = 3" by simp_all
  note t = parralelizeCallables_ordered [OF l, of wrapper_sample lat_sample world_sample]
  have "\<forall>i<3. \<exists>v. (?cs ! i) (?ps ! i) = Inr v"
    by (simp add: all_less_3 double_def)
  with t obtain rs where r: "?a = Inr rs" by blast
  with t have "length rs = 3" and n: "\<forall>i<3. (?cs ! i) (?ps ! i) = Inr (rs ! i)" by blast+
  then obtain a b c where "rs = [a, b, c]"
    using length_3 by blast
  with n have "rs = [Some 6, Some 8, Some 10]"
    by (simp add: all_less_3 double_def)
  with r l show ?thesis by simp
qed

section \<open>All or nothing\<close>

text \<open>
  C2. If the operation of some unit of a batch raises, \<^verbatim>\<open>_parralelizeCallables\<close> raises;
  and in every case the caller gets either an exception or the complete list, of the
  length of the batch and aligned with it, never a partial list.
\<close>

theorem parralelizeCallables_all_or_nothing:
  assumes "length ps = length cs"
  shows "((\<exists>i<length cs. \<exists>e. (cs ! i) (ps ! i) = Inl e) \<longrightarrow>
            (\<exists>e. answer (parralelizeCallables self lat w cs ps) = Inl e)) \<and>
         ((\<exists>e. answer (parralelizeCallables self lat w cs ps) = Inl e) \<or>
          (\<exists>rs. answer (parralelizeCallables self lat w cs ps) = Inr rs \<and>
                length rs = length cs \<and> (\<forall>i<length cs. (cs ! i) (ps ! i) = Inr (rs ! i))))"
proof -
  from assms have a: "answer (parralelizeCallables self lat w cs ps) = gather (units cs ps)"
    by (simp add: engine_answer)
  have one: "\<exists>e. gather (units cs ps) = Inl e" if "\<exists>i<length cs. \<exists>e. (cs ! i) (ps ! i) = Inl e"
  proof -
    from that obtain i e where "i < length cs" "(cs ! i) (ps ! i) = Inl e" by blast
    then have "i < length (units cs ps)" "units cs ps ! i = Inl e"
      by (simp_all add: length_units units_nth)
    then show ?thesis by (rule gather_failure)
  qed
  have two: "(\<exists>e. gather (units cs ps) = Inl e) \<or>
          (\<exists>rs. gather (units cs ps) = Inr rs \<and>
                length rs = length cs \<and> (\<forall>i<length cs. (cs ! i) (ps ! i) = Inr (rs ! i)))"
  proof (cases "gather (units cs ps)")
    case (Inl e)
    then show ?thesis by blast
  next
    case (Inr rs)
    with gather_Inr_aligned [OF Inr] show ?thesis by blast
  qed
  from one two show ?thesis unfolding a by blast
qed

theorem parralelizeCallables_all_or_nothing_witness:
  "length [[3], [4], [5 :: int]] = length [double, failing, double] \<and>
   ([double, failing, double] ! 1) ([[3], [4], [5]] ! 1) = Inl (Failure ''boom'') \<and>
   answer (parralelizeCallables wrapper_sample lat_sample world_sample
             [double, failing, double] [[3], [4], [5]])
     = Inl (Failure ''boom'')"
proof -
  let ?cs = "[double, failing, double]" and ?ps = "[[3], [4], [5 :: int]]"
  let ?a = "answer (parralelizeCallables wrapper_sample lat_sample world_sample ?cs ?ps)"
  have l: "length ?ps = length ?cs" by simp
  note t = parralelizeCallables_all_or_nothing [OF l, of wrapper_sample lat_sample world_sample]
  have f: "(?cs ! 1) (?ps ! 1) = Inl (Failure ''boom'')" by (simp add: failing_def)
  have "(1::nat) < length ?cs" by simp
  with f have "\<exists>i<length ?cs. \<exists>e. (?cs ! i) (?ps ! i) = Inl e" by blast
  with t obtain e where e: "?a = Inl e" by blast
  have "?a = gather (units ?cs ?ps)" by (simp add: engine_answer)
  also have "\<dots> = Inl (Failure ''boom'')"
    by (simp add: units_def double_def failing_def)
  finally show ?thesis using l f e by simp
qed

section \<open>Which failure is raised\<close>

text \<open>
  C10. When several units of a batch raise, \<^verbatim>\<open>_parralelizeCallables\<close> raises the
  exception of the failing unit of lowest index, whatever the running times of the units
  and so whatever the order in which they end.
\<close>

theorem parralelizeCallables_first_failure:
  assumes "length ps = length cs" and "i < length cs" and "(cs ! i) (ps ! i) = Inl e"
    and "\<forall>j<i. \<exists>v. (cs ! j) (ps ! j) = Inr v"
  shows "answer (parralelizeCallables self lat w cs ps) = Inl e"
proof -
  from assms(1) have "answer (parralelizeCallables self lat w cs ps) = gather (units cs ps)"
    by (simp add: engine_answer)
  moreover from assms have "gather (units cs ps) = Inl e"
    by (intro gather_first_failure [of i]) (simp_all add: length_units units_nth)
  ultimately show ?thesis by simp
qed

theorem parralelizeCallables_first_failure_witness:
  "answer (parralelizeCallables wrapper_sample (\<lambda>i. if i = 1 then 500 else 50) world_sample
             [double, failing, lookup_sample] [[3], [4], [2]])
     = Inl (Failure ''boom'') \<and>
   map finish (futures_of wrapper_sample (\<lambda>i. if i = 1 then 500 else 50) world_sample
                 [double, failing, lookup_sample] [[3], [4], [2]]) = [50, 500, 100] \<and>
   ([double, failing, lookup_sample] ! 2) ([[3], [4], [2]] ! 2) = Inl (Failure ''not found'')"
proof -
  let ?cs = "[double, failing, lookup_sample]" and ?ps = "[[3], [4], [2 :: int]]"
  have "length ?ps = length ?cs" by simp
  moreover have "(1::nat) < length ?cs" by simp
  moreover have "(?cs ! 1) (?ps ! 1) = Inl (Failure ''boom'')" by (simp add: failing_def)
  moreover have "\<forall>j<1::nat. \<exists>v. (?cs ! j) (?ps ! j) = Inr v" by (simp add: double_def)
  ultimately have "answer (parralelizeCallables wrapper_sample (\<lambda>i. if i = 1 then 500 else 50)
      world_sample ?cs ?ps) = Inl (Failure ''boom'')"
    by (rule parralelizeCallables_first_failure)
  moreover have "map finish (futures_of wrapper_sample (\<lambda>i. if i = 1 then 500 else 50) world_sample
                 ?cs ?ps) = [50, 500, 100]"
    by (simp add: futures_of_def submit_def wrapper_sample_def world_sample_def)
  moreover have "(?cs ! 2) (?ps ! 2) = Inl (Failure ''not found'')"
    by (simp add: lookup_sample_def)
  ultimately show ?thesis by simp
qed

section \<open>Failure suppression\<close>

text \<open>
  C3. \<^verbatim>\<open>safe_get_company_by_urn\<close> returns what the client's \<^verbatim>\<open>get_company_by_id(urn)\<close>
  returns when that lookup succeeds, returns \<^verbatim>\<open>None\<close> when the lookup raises, whatever
  the exception, and never raises itself.
\<close>

theorem safe_get_company_by_urn_suppresses:
  "(\<forall>v. client_get_company_by_id (rawClient self) [urn] = Inr v \<longrightarrow>
         safe_get_company_by_urn self urn = Inr v) \<and>
   (\<forall>e. client_get_company_by_id (rawClient self) [urn] = Inl e \<longrightarrow>
         safe_get_company_by_urn self urn = Inr None) \<and>
   (\<forall>e. safe_get_company_by_urn self urn \<noteq> Inl e)"
  by (simp add: safe_get_company_by_urn_def split: sum.splits)

theorem safe_get_company_by_urn_suppresses_witness:
  "client_get_company_by_id (rawClient wrapper_sample) [1] = Inr (Some 10) \<and>
   safe_get_company_by_urn wrapper_sample 1 = Inr (Some 10) \<and>
   client_get_company_by_id (rawClient wrapper_sample) [2] = Inl (Failure ''not found'') \<and>
   safe_get_company_by_urn wrapper_sample 2 = Inr None"
proof -
  have a: "client_get_company_by_id (rawClient wrapper_sample) [1] = Inr (Some 10)"
    by (simp add: wrapper_sample_def client_sample_def lookup_sample_def)
  have b: "client_get_company_by_id (rawClient wrapper_sample) [2] = Inl (Failure ''not found'')"
    by (simp add: wrapper_sample_def client_sample_def lookup_sample_def)
  from a safe_get_company_by_urn_suppresses [of wrapper_sample 1]
  have "safe_get_company_by_urn wrapper_sample 1 = Inr (Some 10)" by blast
  moreover from b safe_get_company_by_urn_suppresses [of wrapper_sample 2]
  have "safe_get_company_by_urn wrapper_sample 2 = Inr None" by blast
  ultimately show ?thesis using a b by simp
qed

lemma gather_map_Inr: "gather (map (\<lambda>x. Inr (g x)) xs) = Inr (map g xs)"
  by (induction xs) simp_all

lemma units_same:
  "units (map (\<lambda>i. c) [0..<length xs]) (map (\<lambda>x. [x]) xs) = map (\<lambda>x. c [x]) xs"
  by (rule nth_equalityI) (simp_all add: units_def)

lemma units_same_tuples:
  "units (map (\<lambda>i. c) [0..<length ps]) ps = map c ps"
  by (rule nth_equalityI) (simp_all add: units_def)

text \<open>
  C4. For every list of URNs, \<^verbatim>\<open>batch_safe_get_company_by_urn\<close> returns a list with one
  slot for every URN, in order: the value of the lookup where it succeeds and \<^verbatim>\<open>None\<close>
  where it raises. A failing lookup never makes the batch raise.
\<close>

theorem batch_safe_get_company_by_urn_slots:
  "answer (batch_safe_get_company_by_urn self lat w listOfURNs) =
     Inr (map (\<lambda>urn. case client_get_company_by_id (rawClient self) [urn] of
                        Inr v \<Rightarrow> v
                      | Inl e \<Rightarrow> None) listOfURNs)"
proof -
  let ?cs = "map (\<lambda>i. bound1 (safe_get_company_by_urn self)) [0..<length listOfURNs]"
  let ?ps = "map (\<lambda>urn. [urn]) listOfURNs"
  let ?g = "\<lambda>urn. case client_get_company_by_id (rawClient self) [urn] of
                        Inr v \<Rightarrow> v
                      | Inl e \<Rightarrow> None"
  have "answer (parralelizeCallables self lat w ?cs ?ps) = gather (units ?cs ?ps)"
    by (simp add: engine_answer)
  also have "units ?cs ?ps = map (\<lambda>urn. bound1 (safe_get_company_by_urn self) [urn]) listOfURNs"
    by (rule units_same)
  also have "\<dots> = map (\<lambda>urn. Inr (?g urn)) listOfURNs"
    by (simp add: bound1_def safe_get_company_by_urn_def split: sum.splits)
  also have "gather \<dots> = Inr (map ?g listOfURNs)"
    by (rule gather_map_Inr)
  finally show ?thesis
    by (simp add: batch_safe_get_company_by_urn_def)
qed

theorem batch_safe_get_company_by_urn_slots_witness:
  "answer (batch_safe_get_company_by_urn wrapper_sample lat_sample world_sample [1, 2, 3]) =
     Inr [Some 10, None, Some 30]"
  using batch_safe_get_company_by_urn_slots [of wrapper_sample lat_sample world_sample "[1, 2, 3]"]
  by (simp add: wrapper_sample_def client_sample_def lookup_sample_def)

lemma append_callables_eq: "append_callables c is callableList = callableList @ map (\<lambda>i. c) is"
  by (induction "is" arbitrary: callableList) simp_all

lemma callableList_eq: "append_callables c [0..<n] [] = map (\<lambda>item. c) [0..<n]"
  by (simp add: append_callables_eq)

lemma map_const_upt: "map (\<lambda>i. c) [0..<length xs] = map (\<lambda>item. c) xs"
  by (rule nth_equalityI) simp_all

lemma gather_map_aligned:
  assumes "gather (map f xs) = Inr rs"
  shows "length rs = length xs \<and> (\<forall>i<length xs. f (xs ! i) = Inr (rs ! i))"
proof -
  from assms have m: "map f xs = map Inr rs" by (simp add: gather_Inr_iff)
  then have l: "length xs = length rs" by (rule map_eq_imp_length_eq)
  have "f (xs ! i) = Inr (rs ! i)" if "i < length xs" for i
  proof -
    from that have "f (xs ! i) = map f xs ! i" by simp
    also from m have "\<dots> = map Inr rs ! i" by simp
    also from that l have "\<dots> = Inr (rs ! i)" by simp
    finally show ?thesis .
  qed
  with l show ?thesis by simp
qed

lemma enrich_company_fun:
  "enrich_company self = (\<lambda>url. client_enrich_company (rawClient self) [url])"
  by (rule ext) (simp add: enrich_company_def)

lemma enrich_person_fun:
  "enrich_person self = (\<lambda>url. client_enrich_person (rawClient self) [url])"
  by (rule ext) (simp add: enrich_person_def)

lemma batched_spec_answer:
  "answer (batched_spec self lat w c ps) = gather (map c ps)"
proof -
  have "units (map (\<lambda>item. c) ps) ps = map c ps"
    by (rule nth_equalityI) (simp_all add: units_def)
  then show ?thesis by (simp add: batched_spec_def engine_answer)
qed

section \<open>Batched catalog operations\<close>

text \<open>
  C5. \<^verbatim>\<open>enrich_companies\<close>, \<^verbatim>\<open>enrich_people\<close> and \<^verbatim>\<open>batch_searches\<close> are their
  singular operation batched: each builds one work unit per item of its input, every
  unit with the same operation of the wrapped client, and hands back what the engine gives
  for them. So the answer is the list of the singular results in the order of the input,
  or the first exception in that order; a list that is returned has the length of the
  input and its \<open>i\<close>-th element is what the singular operation returns on the \<open>i\<close>-th
  item.
\<close>

theorem batched_catalog_operations:
  "enrich_companies self lat w urls =
     batched_spec self lat w (client_enrich_company (rawClient self)) (map (\<lambda>url. [url]) urls) \<and>
   enrich_people self lat w urls =
     batched_spec self lat w (client_enrich_person (rawClient self)) (map (\<lambda>url. [url]) urls) \<and>
   batch_searches self lat w tuples =
     batched_spec self lat w (client_search (rawClient self)) tuples \<and>
   answer (enrich_companies self lat w urls) = gather (map (enrich_company self) urls) \<and>
   answer (enrich_people self lat w urls) = gather (map (enrich_person self) urls) \<and>
   answer (batch_searches self lat w tuples) = gather (map (client_search (rawClient self)) tuples) \<and>
   (\<forall>rs. answer (enrich_companies self lat w urls) = Inr rs \<longrightarrow>
      length rs = length urls \<and> (\<forall>i<length urls. enrich_company self (urls ! i) = Inr (rs ! i))) \<and>
   (\<forall>rs. answer (enrich_people self lat w urls) = Inr rs \<longrightarrow>
      length rs = length urls \<and> (\<forall>i<length urls. enrich_person self (urls ! i) = Inr (rs ! i))) \<and>
   (\<forall>rs. answer (batch_searches self lat w tuples) = Inr rs \<longrightarrow>
      length rs = length tuples \<and>
      (\<forall>i<length tuples. client_search (rawClient self) (tuples ! i) = Inr (rs ! i)))"
proof -
  have c: "enrich_companies self lat w urls =
     batched_spec self lat w (client_enrich_company (rawClient self)) (map (\<lambda>url. [url]) urls)"
    by (simp add: enrich_companies_def batched_spec_def callableList_eq map_const_upt comp_def)
  have p: "enrich_people self lat w urls =
     batched_spec self lat w (client_enrich_person (rawClient self)) (map (\<lambda>url. [url]) urls)"
    by (simp add: enrich_people_def batched_spec_def callableList_eq map_const_upt comp_def)
  have s: "batch_searches self lat w tuples =
     batched_spec self lat w (client_search (rawClient self)) tuples"
    by (simp add: batch_searches_def batched_spec_def callableList_eq map_const_upt)
  have ca: "answer (enrich_companies self lat w urls) = gather (map (enrich_company self) urls)"
    unfolding c batched_spec_answer by (simp add: comp_def enrich_company_fun)
  have pa: "answer (enrich_people self lat w urls) = gather (map (enrich_person self) urls)"
    unfolding p batched_spec_answer by (simp add: comp_def enrich_person_fun)
  have sa: "answer (batch_searches self lat w tuples) =
      gather (map (client_search (rawClient self)) tuples)"
    unfolding s batched_spec_answer by simp
  note al = gather_map_aligned [of "enrich_company self" urls]
    gather_map_aligned [of "enrich_person self" urls]
    gather_map_aligned [of "client_search (rawClient self)" tuples]
  show ?thesis
    unfolding ca pa sa using c p s al by blast
qed

theorem batched_catalog_operations_witness:
  "answer (enrich_companies wrapper_sample lat_sample world_sample [3, 4, 5]) =
     Inr [Some 6, Some 8, Some 10] \<and>
   length [Some 6, Some 8, Some (10 :: int)] = length [3, 4, 5 :: int] \<and>
   enrich_company wrapper_sample ([3, 4, 5] ! 1) = Inr ([Some 6, Some 8, Some 10] ! 1)"
proof -
  note t = batched_catalog_operations [of wrapper_sample lat_sample world_sample "[3, 4, 5]" "[[1]]"]
  have g: "gather (map (enrich_company wrapper_sample) [3, 4, 5]) = Inr [Some 6, Some 8, Some 10]"
    by (simp add: enrich_company_def wrapper_sample_def client_sample_def double_def)
  from t have "answer (enrich_companies wrapper_sample lat_sample world_sample [3, 4, 5]) =
     gather (map (enrich_company wrapper_sample) [3, 4, 5])"
    by blast
  from this g have a: "answer (enrich_companies wrapper_sample lat_sample world_sample [3, 4, 5]) =
     Inr [Some 6, Some 8, Some 10]"
    by (rule trans)
  with t have "length [Some 6, Some 8, Some (10 :: int)] = length [3, 4, 5 :: int] \<and>
      (\<forall>i<length [3, 4, 5 :: int].
         enrich_company wrapper_sample ([3, 4, 5] ! i) = Inr ([Some 6, Some 8, Some 10] ! i))"
    by blast
  moreover have "(1::nat) < length [3, 4, 5 :: int]" by simp
  ultimately show ?thesis using a by blast
qed

section \<open>Waiting for the units\<close>

lemma wait_loop_one_pass: "wait_loop futs False w = scan futs 0 w"
  by simp

lemma collect_mono: "t \<le> snd (collect futs t)"
proof (induction futs arbitrary: t)
  case Nil
  show ?case by simp
next
  case (Cons f fs)
  have "max t (finish f) \<le> snd (collect fs (max t (finish f)))" by (rule Cons.IH)
  then have "t \<le> snd (collect fs (max t (finish f)))" by simp
  then show ?case
    by (cases "outcome f"; cases "collect fs (max t (finish f))")
       (auto simp: future_result_def split: sum.splits)
qed

lemma collect_waits_for_all:
  "collect futs t = (Inr vs, t') \<Longrightarrow> \<forall>f \<in> set futs. finish f \<le> t'"
proof (induction futs arbitrary: t vs t')
  case Nil
  show ?case by simp
next
  case (Cons f fs)
  from Cons.prems obtain v where v: "outcome f = Inr v"
    by (cases "outcome f") (simp_all add: future_result_def)
  obtain r t1 where c: "collect fs (max t (finish f)) = (r, t1)" by fastforce
  with Cons.prems v obtain ws where r: "r = Inr ws" and t1: "t1 = t'"
    by (cases r) (simp_all add: future_result_def)
  from c r t1 have "collect fs (max t (finish f)) = (Inr ws, t')" by simp
  then have rest: "\<forall>g \<in> set fs. finish g \<le> t'" by (rule Cons.IH)
  from collect_mono [of "max t (finish f)" fs] c t1 have "finish f \<le> t'" by simp
  with rest show ?case by simp
qed

lemma returns_after_all_units:
  assumes "answer (parralelizeCallables self lat w cs ps) = Inr rs"
  shows "\<forall>f \<in> set (futures_of self lat w cs ps).
           finish f \<le> returned_at (parralelizeCallables self lat w cs ps)"
proof (cases "submit_all lat (clock w) cs ps [0..<length cs] (pool self) []")
  case (Pair r pl)
  show ?thesis
  proof (cases r)
    case (Inl e)
    with Pair show ?thesis by (simp add: futures_of_def)
  next
    case (Inr futs)
    obtain r' t' where c: "collect futs (clock (wait_loop futs False w)) = (r', t')"
      by fastforce
    with Pair Inr assms have "r' = Inr rs"
      by (simp add: parralelizeCallables_def answer_def Let_def)
    with c have "\<forall>f \<in> set futs. finish f \<le> t'" by (auto dest: collect_waits_for_all)
    with Pair Inr c show ?thesis
      by (simp add: parralelizeCallables_def returned_at_def futures_of_def Let_def)
  qed
qed

lemma futures_slow_second:
  "futures_of wrapper_sample lat_slow_second world_sample [failing, double] [[3], [4]] =
     [\<lparr>started = 0, finish = 10, outcome = Inl (Failure ''boom'')\<rparr>,
      \<lparr>started = 0, finish = 1000, outcome = Inr (Some 8)\<rparr>]"
  by (simp add: futures_of_def submit_def wrapper_sample_def world_sample_def lat_slow_second_def
      failing_def double_def)

text \<open>
  C6. A batch of two units on two workers: the first raises after 10 milliseconds, the
  second runs for a second. The engine raises the exception of the first unit at 200
  milliseconds, 800 milliseconds before the second unit reaches its terminal state.
\<close>

theorem parralelizeCallables_raises_early:
  "answer (parralelizeCallables wrapper_sample lat_slow_second world_sample
             [failing, double] [[3], [4]]) = Inl (Failure ''boom'') \<and>
   returned_at (parralelizeCallables wrapper_sample lat_slow_second world_sample
             [failing, double] [[3], [4]]) = 200 \<and>
   map finish (futures_of wrapper_sample lat_slow_second world_sample
             [failing, double] [[3], [4]]) = [10, 1000]"
  by (simp add: futures_slow_second)
     (simp add: parralelizeCallables_def answer_def returned_at_def submit_def wrapper_sample_def
        world_sample_def lat_slow_second_def failing_def double_def future_done_def
        future_result_def)

lemma futures_both_slow:
  "futures_of wrapper_sample (\<lambda>i. 1000) world_sample [double, double] [[3], [4]] =
     [\<lparr>started = 0, finish = 1000, outcome = Inr (Some 6)\<rparr>,
      \<lparr>started = 0, finish = 1000, outcome = Inr (Some 8)\<rparr>]"
  by (simp add: futures_of_def submit_def wrapper_sample_def world_sample_def double_def)

text \<open>
  C7. A batch of two units on two workers, each running for a second. The
  completion-detection loop checks the first future once, sleeps 200 milliseconds once and
  ends: it is left at 200 milliseconds with neither future done and the second one never
  checked. The call still returns the results, at 1000 milliseconds, since taking the
  results blocks.
\<close>

theorem wait_loop_ends_after_one_pass:
  "wait_loop (futures_of wrapper_sample (\<lambda>i. 1000) world_sample [double, double] [[3], [4]])
     False world_sample = \<lparr>clock = 200, trace = [Checked 0, Slept 200]\<rparr> \<and>
   \<not> future_done
       (futures_of wrapper_sample (\<lambda>i. 1000) world_sample [double, double] [[3], [4]] ! 0) 200 \<and>
   \<not> future_done
       (futures_of wrapper_sample (\<lambda>i. 1000) world_sample [double, double] [[3], [4]] ! 1) 200 \<and>
   parralelizeCallables wrapper_sample (\<lambda>i. 1000) world_sample [double, double] [[3], [4]] =
     (Inr [Some 6, Some 8], wrapper_sample\<lparr>pool := Pool 1000 [1000]\<rparr>,
      \<lparr>clock = 1000, trace = [Checked 0, Slept 200]\<rparr>)"
  by (simp add: futures_both_slow)
     (simp add: parralelizeCallables_def submit_def wrapper_sample_def
        world_sample_def double_def future_done_def future_result_def)

section \<open>The pool\<close>

lemma fold_min_in: "fold min ws (w :: nat) \<in> set (w # ws)"
proof (induction ws arbitrary: w)
  case Nil
  show ?case by simp
next
  case (Cons a ws)
  have "fold min ws (min a w) \<in> set (min a w # ws)" by (rule Cons.IH)
  moreover have "min a w = a \<or> min a w = w" by (simp add: min_def)
  ultimately show ?case by auto
qed

lemma fold_min_le: "x \<in> set (w # ws) \<Longrightarrow> fold min ws (w :: nat) \<le> x"
proof (induction ws arbitrary: w x)
  case Nil
  then show ?case by simp
next
  case (Cons a ws)
  have m: "fold min ws (min a w) \<le> min a w" by (rule Cons.IH) simp
  show ?case
  proof (cases "x \<in> set ws")
    case True
    then have "fold min ws (min a w) \<le> x" by (intro Cons.IH) simp
    then show ?thesis by simp
  next
    case False
    with Cons.prems have "x = w \<or> x = a" by auto
    then have "min a w \<le> x" by auto
    with m have "fold min ws (min a w) \<le> x" by (rule order_trans)
    then show ?thesis by simp
  qed
qed

lemma submit_cases:
  assumes "submit pl now d r = (pl', f)"
  obtains m where "m \<in> set (workers pl)" and "\<forall>x \<in> set (workers pl). m \<le> x"
    and "started f = max now m" and "finish f = started f + d" and "outcome f = r"
    and "workers pl' = finish f # remove1 m (workers pl)"
proof (cases pl)
  case (Pool w ws)
  let ?m = "fold min ws w"
  have "?m \<in> set (workers pl)" using Pool fold_min_in [of ws w] by simp
  moreover have "\<forall>x \<in> set (workers pl). ?m \<le> x" using Pool fold_min_le [of _ w ws] by simp
  moreover from assms Pool have "started f = max now ?m" "finish f = started f + d"
    "outcome f = r" "workers pl' = finish f # remove1 ?m (workers pl)"
    by (auto simp: submit_def Let_def)
  ultimately show ?thesis by (rule that)
qed

lemma length_filter_remove1:
  "m \<in> set xs \<Longrightarrow> length (filter P (remove1 m xs)) + (if P m then 1 else 0) = length (filter P xs)"
  by (induction xs) auto

lemma running_append:
  "running (futs @ [f]) t = running futs t @ (if started f \<le> t \<and> t < finish f then [f] else [])"
  by (simp add: running_def)

lemma running_lists: "running (xs @ ys) t = running xs t @ running ys t"
  by (simp add: running_def)

lemma busy_all: "\<forall>x \<in> set (workers pl). t < x \<Longrightarrow> busy pl t = workers pl"
  by (simp add: busy_def)

lemma busy_le: "length (busy pl t) \<le> length (workers pl)"
  by (simp add: busy_def)

lemma busy_less: "m \<in> set (workers pl) \<Longrightarrow> \<not> t < m \<Longrightarrow> length (busy pl t) < length (workers pl)"
  unfolding busy_def by (rule length_filter_less) simp_all

lemma busy_submit:
  assumes "submit pl now d r = (pl', f)"
  obtains m where "m \<in> set (workers pl)" and "\<forall>x \<in> set (workers pl). m \<le> x"
    and "started f = max now m" and "finish f = started f + d"
    and "length (busy pl' t) + (if t < m then 1 else 0) =
         length (busy pl t) + (if t < finish f then 1 else 0)"
    and "length (workers pl') = length (workers pl)"
proof -
  from assms obtain m where m: "m \<in> set (workers pl)" and le: "\<forall>x \<in> set (workers pl). m \<le> x"
    and st: "started f = max now m" and fi: "finish f = started f + d"
    and w': "workers pl' = finish f # remove1 m (workers pl)"
    by (rule submit_cases)
  from m have "length (filter (\<lambda>x. t < x) (remove1 m (workers pl))) + (if t < m then 1 else 0) =
      length (filter (\<lambda>x. t < x) (workers pl))"
    by (rule length_filter_remove1)
  then have c: "length (busy pl' t) + (if t < m then 1 else 0) =
         length (busy pl t) + (if t < finish f then 1 else 0)"
    by (simp add: busy_def w')
  from m w' have l: "length (workers pl') = length (workers pl)"
    using length_pos_if_in_set [of m "workers pl"] by (simp add: length_remove1)
  from m le st fi c l show ?thesis by (rule that)
qed

lemma running_step:
  assumes s: "submit pl now d r = (pl', f)"
    and I: "length (running futs t) + c \<le> length (busy pl t)"
  shows "length (running (futs @ [f]) t) + c \<le> length (busy pl' t)"
proof -
  from s obtain m where st: "started f = max now m" and fi: "finish f = started f + d"
    and b: "length (busy pl' t) + (if t < m then 1 else 0) =
         length (busy pl t) + (if t < finish f then 1 else 0)"
    by (rule busy_submit)
  have run: "length (running (futs @ [f]) t) =
      length (running futs t) + (if started f \<le> t \<and> t < finish f then 1 else 0)"
    by (simp add: running_append)
  show ?thesis
  proof (cases "t < m")
    case True
    with st have "t < started f" by simp
    moreover from this fi have "t < finish f" by simp
    ultimately show ?thesis using True I b run by simp
  next
    case False
    with I b run show ?thesis by simp
  qed
qed

lemma running_step_exact:
  assumes s: "submit pl now d r = (pl', f)"
    and E: "length (running futs t) + c = length (busy pl t)"
    and t: "now \<le> t"
  shows "length (running (futs @ [f]) t) + c = length (busy pl' t)"
proof -
  from s obtain m where st: "started f = max now m" and fi: "finish f = started f + d"
    and b: "length (busy pl' t) + (if t < m then 1 else 0) =
         length (busy pl t) + (if t < finish f then 1 else 0)"
    by (rule busy_submit)
  have run: "length (running (futs @ [f]) t) =
      length (running futs t) + (if started f \<le> t \<and> t < finish f then 1 else 0)"
    by (simp add: running_append)
  show ?thesis
  proof (cases "t < m")
    case True
    with st have "t < started f" by simp
    moreover from this fi have "t < finish f" by simp
    ultimately show ?thesis using True E b run by simp
  next
    case False
    with st t have "started f \<le> t" by simp
    with False E b run show ?thesis by simp
  qed
qed

lemma unit_waits:
  assumes s: "submit pl now d r = (pl', f)"
    and E: "length (running futs t) + c = length (busy pl t)"
    and t: "now \<le> t" "t < started f"
  shows "length (running futs t) + c = length (workers pl)"
proof -
  from s obtain m where le: "\<forall>x \<in> set (workers pl). m \<le> x" and st: "started f = max now m"
    by (rule busy_submit)
  from st t have "t < m" by simp
  with le have "\<forall>x \<in> set (workers pl). t < x" by auto
  then have "busy pl t = workers pl" by (rule busy_all)
  with E show ?thesis by simp
qed

lemma unit_starts_free:
  assumes s: "submit pl now d r = (pl', f)"
    and E: "length (running futs (started f)) + c = length (busy pl (started f))"
  shows "length (running futs (started f)) + c < length (workers pl)"
proof -
  from s obtain m where m: "m \<in> set (workers pl)" and st: "started f = max now m"
    by (rule busy_submit)
  from st have "\<not> started f < m" by simp
  with m have "length (busy pl (started f)) < length (workers pl)" by (rule busy_less)
  with E show ?thesis by simp
qed

lemma submit_started: "submit pl now d r = (pl', f) \<Longrightarrow> now \<le> started f"
  by (erule submit_cases) simp

lemma submit_all_workers:
  "length (workers (snd (submit_all lat now cs ps is pl futs))) = length (workers pl)"
proof (induction "is" arbitrary: pl futs)
  case Nil
  show ?case by simp
next
  case (Cons i "is")
  show ?case
  proof (cases "i < length cs \<and> i < length ps")
    case False
    then show ?thesis by auto
  next
    case True
    obtain pl1 f where s: "submit pl now (lat i) ((cs ! i) (ps ! i)) = (pl1, f)"
      by (cases "submit pl now (lat i) ((cs ! i) (ps ! i))")
    then have "length (workers pl1) = length (workers pl)" by (rule busy_submit)
    moreover have "length (workers (snd (submit_all lat now cs ps is pl1 (futs @ [f])))) =
        length (workers pl1)"
      by (rule Cons.IH)
    ultimately show ?thesis using True s by simp
  qed
qed

lemma submit_all_shape:
  assumes "\<forall>i \<in> set is. i < length cs \<and> i < length ps"
  shows "\<exists>pl' fs. submit_all lat now cs ps is pl futs = (Inr (futs @ fs), pl') \<and>
     list_all2 (\<lambda>f i. outcome f = (cs ! i) (ps ! i) \<and> finish f = started f + lat i \<and>
                       now \<le> started f) fs is"
  using assms
proof (induction "is" arbitrary: pl futs)
  case Nil
  then show ?case by simp
next
  case (Cons i "is")
  obtain pl1 f where s: "submit pl now (lat i) ((cs ! i) (ps ! i)) = (pl1, f)"
    by (cases "submit pl now (lat i) ((cs ! i) (ps ! i))")
  from Cons.prems have "\<forall>i \<in> set is. i < length cs \<and> i < length ps" by simp
  from Cons.IH [OF this, of pl1 "futs @ [f]"] obtain pl' fs where
    r: "submit_all lat now cs ps is pl1 (futs @ [f]) = (Inr ((futs @ [f]) @ fs), pl')"
    and a: "list_all2 (\<lambda>f i. outcome f = (cs ! i) (ps ! i) \<and> finish f = started f + lat i \<and>
                       now \<le> started f) fs is"
    by blast
  from s have f: "outcome f = (cs ! i) (ps ! i)" "finish f = started f + lat i" "now \<le> started f"
    by (auto elim: submit_cases)
  from Cons.prems have "i < length cs \<and> i < length ps" by simp
  with s r have "submit_all lat now cs ps (i # is) pl futs = (Inr (futs @ f # fs), pl')"
    by simp
  moreover from f a have
    "list_all2 (\<lambda>f i. outcome f = (cs ! i) (ps ! i) \<and> finish f = started f + lat i \<and>
                       now \<le> started f) (f # fs) (i # is)"
    by simp
  ultimately show ?case by blast
qed

lemma submit_all_schedule:
  assumes "submit_all lat now cs ps is pl futs = (Inr futs', pl')"
    and "\<forall>t. length (running futs t) + c t \<le> length (busy pl t)"
    and "\<forall>t\<ge>now. length (running futs t) + c t = length (busy pl t)"
    and "\<forall>k<length futs.
           (\<forall>t. now \<le> t \<and> t < started (futs ! k) \<longrightarrow>
                length (running (take k futs) t) + c t = n) \<and>
           length (running (take k futs) (started (futs ! k))) + c (started (futs ! k)) < n"
    and "length (workers pl) = n"
  shows "(\<forall>t. length (running futs' t) + c t \<le> length (busy pl' t)) \<and>
     (\<forall>t\<ge>now. length (running futs' t) + c t = length (busy pl' t)) \<and>
     (\<forall>k<length futs'.
           (\<forall>t. now \<le> t \<and> t < started (futs' ! k) \<longrightarrow>
                length (running (take k futs') t) + c t = n) \<and>
           length (running (take k futs') (started (futs' ! k))) + c (started (futs' ! k)) < n)"
  using assms
proof (induction "is" arbitrary: pl futs)
  case Nil
  then show ?case by simp
next
  case (Cons i "is")
  from Cons.prems(1) have r: "i < length cs \<and> i < length ps"
    by (cases "i < length cs \<and> i < length ps") simp_all
  obtain pl1 f where s: "submit pl now (lat i) ((cs ! i) (ps ! i)) = (pl1, f)"
    by (cases "submit pl now (lat i) ((cs ! i) (ps ! i))")
  with Cons.prems(1) r have a: "submit_all lat now cs ps is pl1 (futs @ [f]) = (Inr futs', pl')"
    by simp
  have B: "\<forall>t. length (running (futs @ [f]) t) + c t \<le> length (busy pl1 t)"
    using running_step [OF s] Cons.prems(2) by blast
  have E: "\<forall>t\<ge>now. length (running (futs @ [f]) t) + c t = length (busy pl1 t)"
    using running_step_exact [OF s] Cons.prems(3) by blast
  from s have n1: "length (workers pl1) = length (workers pl)" by (rule busy_submit)
  with Cons.prems(5) have N: "length (workers pl1) = n" by simp
  have now: "now \<le> started f" using s by (rule submit_started)
  have U: "(\<forall>t. now \<le> t \<and> t < started ((futs @ [f]) ! k) \<longrightarrow>
                length (running (take k (futs @ [f])) t) + c t = n) \<and>
           length (running (take k (futs @ [f])) (started ((futs @ [f]) ! k))) +
             c (started ((futs @ [f]) ! k)) < n"
    if k: "k < length (futs @ [f])" for k
  proof (cases "k < length futs")
    case True
    with Cons.prems(4) show ?thesis by (simp add: nth_append)
  next
    case False
    with k have e: "k = length futs" by simp
    have w: "length (running futs t) + c t = n" if "now \<le> t" "t < started f" for t
    proof -
      from Cons.prems(3) that(1) have "length (running futs t) + c t = length (busy pl t)"
        by blast
      from unit_waits [OF s this that] Cons.prems(5) show ?thesis by simp
    qed
    from Cons.prems(3) now
    have "length (running futs (started f)) + c (started f) = length (busy pl (started f))"
      by blast
    from unit_starts_free [OF s this] Cons.prems(5)
    have "length (running futs (started f)) + c (started f) < n" by simp
    with w e show ?thesis by simp
  qed
  from a B E U N show ?case by (intro Cons.IH) blast+
qed

lemma pool_after:
  "pool (wrapper_after (parralelizeCallables self lat w cs ps)) =
     snd (submit_all lat (clock w) cs ps [0..<length cs] (pool self) [])"
proof (cases "submit_all lat (clock w) cs ps [0..<length cs] (pool self) []")
  case (Pair r pl)
  then show ?thesis
    by (cases r; cases "collect (projr r) (clock (wait_loop (projr r) False w))")
       (simp_all add: parralelizeCallables_def wrapper_after_def Let_def)
qed

lemma batch_schedule:
  assumes p: "length ps = length cs"
    and B: "\<forall>t. c t \<le> length (busy (pool self) t)"
    and E: "\<forall>t\<ge>clock w. c t = length (busy (pool self) t)"
  shows "length (futures_of self lat w cs ps) = length cs \<and>
     (\<forall>i<length cs. outcome (futures_of self lat w cs ps ! i) = (cs ! i) (ps ! i) \<and>
        finish (futures_of self lat w cs ps ! i) =
          started (futures_of self lat w cs ps ! i) + lat i \<and>
        clock w \<le> started (futures_of self lat w cs ps ! i)) \<and>
     (\<forall>t. length (running (futures_of self lat w cs ps) t) + c t \<le>
          length (busy (pool (wrapper_after (parralelizeCallables self lat w cs ps))) t)) \<and>
     (\<forall>t\<ge>clock w. length (running (futures_of self lat w cs ps) t) + c t =
          length (busy (pool (wrapper_after (parralelizeCallables self lat w cs ps))) t)) \<and>
     (\<forall>i<length cs.
        (\<forall>t. clock w \<le> t \<and> t < started (futures_of self lat w cs ps ! i) \<longrightarrow>
             length (running (take i (futures_of self lat w cs ps)) t) + c t =
               length (workers (pool self))) \<and>
        length (running (take i (futures_of self lat w cs ps))
                  (started (futures_of self lat w cs ps ! i))) +
          c (started (futures_of self lat w cs ps ! i)) < length (workers (pool self))) \<and>
     length (workers (pool (wrapper_after (parralelizeCallables self lat w cs ps)))) =
       length (workers (pool self))"
proof -
  from p have "\<forall>i \<in> set [0..<length cs]. i < length cs \<and> i < length ps" by simp
  from submit_all_shape [OF this, of lat "clock w" "pool self" "[]"] obtain pl' fs where
    sa: "submit_all lat (clock w) cs ps [0..<length cs] (pool self) [] = (Inr fs, pl')"
    and la: "list_all2 (\<lambda>f i. outcome f = (cs ! i) (ps ! i) \<and> finish f = started f + lat i \<and>
               clock w \<le> started f) fs [0..<length cs]"
    by auto
  from sa have fo: "futures_of self lat w cs ps = fs" by (simp add: futures_of_def)
  from sa have po: "pool (wrapper_after (parralelizeCallables self lat w cs ps)) = pl'"
    by (simp add: pool_after)
  from la have len: "length fs = length cs" by (auto dest: list_all2_lengthD)
  have nth: "outcome (fs ! i) = (cs ! i) (ps ! i) \<and> finish (fs ! i) = started (fs ! i) + lat i \<and>
      clock w \<le> started (fs ! i)"
    if "i < length cs" for i
  proof -
    from that len have "i < length fs" by simp
    with la have "outcome (fs ! i) = (cs ! ([0..<length cs] ! i)) (ps ! ([0..<length cs] ! i)) \<and>
        finish (fs ! i) = started (fs ! i) + lat ([0..<length cs] ! i) \<and>
        clock w \<le> started (fs ! i)"
      by (rule list_all2_nthD)
    with that show ?thesis by simp
  qed
  have sch: "(\<forall>t. length (running fs t) + c t \<le> length (busy pl' t)) \<and>
     (\<forall>t\<ge>clock w. length (running fs t) + c t = length (busy pl' t)) \<and>
     (\<forall>k<length fs.
           (\<forall>t. clock w \<le> t \<and> t < started (fs ! k) \<longrightarrow>
                length (running (take k fs) t) + c t = length (workers (pool self))) \<and>
           length (running (take k fs) (started (fs ! k))) + c (started (fs ! k)) <
             length (workers (pool self)))"
    by (rule submit_all_schedule [OF sa]) (use B E in \<open>simp_all add: running_def\<close>)
  from submit_all_workers [of lat "clock w" cs ps "[0..<length cs]" "pool self" "[]"] sa
  have wl: "length (workers pl') = length (workers (pool self))" by simp
  from len nth sch wl show ?thesis unfolding fo po by simp
qed

lemma history_invariant:
  assumes "list_all paired history"
    and "sorted (t0 # map submitted_at history @ [now])"
    and "\<forall>t. length (running prev t) \<le> length (busy (pool self0) t)"
    and "\<forall>t\<ge>t0. length (running prev t) = length (busy (pool self0) t)"
  shows "(\<forall>t. length (running (prev @ futures_of_batches self0 history) t) \<le>
            length (busy (pool (after_batches self0 history)) t)) \<and>
     (\<forall>t\<ge>now. length (running (prev @ futures_of_batches self0 history) t) =
            length (busy (pool (after_batches self0 history)) t)) \<and>
     length (workers (pool (after_batches self0 history))) = length (workers (pool self0))"
  using assms
proof (induction history arbitrary: self0 prev t0)
  case Nil
  from Nil.prems(2) have "t0 \<le> now" by simp
  with Nil.prems(3,4) show ?case by simp
next
  case (Cons b bs)
  obtain lat w cs ps where b: "b = (lat, w, cs, ps)" by (cases b)
  let ?self1 = "wrapper_after (parralelizeCallables self0 lat w cs ps)"
  let ?fs = "futures_of self0 lat w cs ps"
  from Cons.prems(1) have pb: "paired b" and rest: "list_all paired bs"
    by simp_all
  from pb b have p: "length ps = length cs" by (simp add: paired_def)
  from b have sb: "submitted_at b = clock w" by (simp add: submitted_at_def)
  from Cons.prems(2) sb have t0: "t0 \<le> clock w"
    and so: "sorted (clock w # map submitted_at bs @ [now])"
    by simp_all
  from Cons.prems(4) t0
  have E: "\<forall>t\<ge>clock w. length (running prev t) = length (busy (pool self0) t)" by simp
  note bs = batch_schedule [OF p Cons.prems(3) E, of lat]
  from bs have B1: "\<forall>t. length (running (prev @ ?fs) t) \<le> length (busy (pool ?self1) t)"
    by (simp add: running_lists add.commute)
  from bs have E1: "\<forall>t\<ge>clock w. length (running (prev @ ?fs) t) = length (busy (pool ?self1) t)"
    by (simp add: running_lists add.commute)
  from bs have W1: "length (workers (pool ?self1)) = length (workers (pool self0))"
    by blast
  from Cons.IH [OF rest so B1 E1] W1 b show ?case by simp
qed

lemma init_pool:
  assumes "init harmonicClient n = Inr self"
  shows "workers (pool self) = replicate (nat n) 0 \<and> 0 < n"
proof -
  from assms have p: "0 < n"
    by (cases "n \<le> 0") (simp_all add: init_def ThreadPoolExecutor_def)
  with assms have "pool self = Pool 0 (replicate (nat n - 1) 0)"
    by (auto simp: init_def ThreadPoolExecutor_def)
  then have "workers (pool self) = replicate (Suc (nat n - 1)) 0" by simp
  moreover from p have "Suc (nat n - 1) = nat n" by simp
  ultimately show ?thesis using p by simp
qed

lemma init_default_pool:
  "init_default harmonicClient = Inr self \<Longrightarrow> length (workers (pool self)) = 10"
  using init_pool [of harmonicClient numWorkers_default self]
  by (simp add: init_default_def numWorkers_default_def)

lemma gather_Inl_unit:
  assumes "gather (units cs ps) = Inl e"
  shows "\<exists>i<length cs. (cs ! i) (ps ! i) = Inl e"
proof -
  from gather_Inl_D [OF assms] obtain i where i: "i < length (units cs ps)" "units cs ps ! i = Inl e"
    by blast
  from i(1) have l: "i < length cs" by (simp add: length_units)
  with i(2) have "(cs ! i) (ps ! i) = Inl e" by (simp add: units_nth)
  with l show ?thesis by blast
qed

lemma init_not_busy:
  assumes "init harmonicClient n = Inr self"
  shows "busy (pool self) t = []"
  using init_pool [OF assms] by (simp add: busy_def)

lemma length_filter_mono:
  "\<forall>x \<in> set xs. P x \<longrightarrow> Q x \<Longrightarrow> length (filter P xs) \<le> length (filter Q xs)"
  by (induction xs) auto

lemma starts_when_freed:
  assumes "t < s" and "s \<le> Suc t"
    and "length (running L s) < length (running L t)"
  shows "\<exists>f \<in> set L. finish f = s"
proof (rule ccontr)
  assume "\<not> (\<exists>f \<in> set L. finish f = s)"
  then have n: "\<forall>f \<in> set L. finish f \<noteq> s" by blast
  have "\<forall>f \<in> set L. (started f \<le> t \<and> t < finish f) \<longrightarrow> (started f \<le> s \<and> s < finish f)"
  proof (intro ballI impI)
    fix f assume f: "f \<in> set L" and r: "started f \<le> t \<and> t < finish f"
    from n f have "finish f \<noteq> s" by blast
    with r assms(1,2) show "started f \<le> s \<and> s < finish f" by simp
  qed
  then have "length (running L t) \<le> length (running L s)"
    unfolding running_def by (rule length_filter_mono)
  with assms(3) show False by simp
qed

section \<open>Batches larger than the pool\<close>

text \<open>
  C9. Take a wrapper that the constructor has made with \<open>n\<close> workers and that has since
  been given any history of batches, at times that do not decrease, and give it one more
  batch, of any size, in particular one larger than \<open>n\<close>. Then every unit of the batch
  gets its future, runs for its full time and ends with the outcome of its callable, no
  unit being dropped. Counting the units of the whole history with those of the batch, at
  no time are more than \<open>n\<close> units running. A unit waits only while all \<open>n\<close> workers are
  occupied: from the call until the unit starts exactly \<open>n\<close> units are running, at the
  moment it starts fewer than \<open>n\<close> are, and that moment is the time of the call or the
  end of an earlier unit. An exception that the call raises is the exception of one of
  its units, so none comes from the size of the batch; and when every unit returns, the
  call returns the full list in the order of the batch.
\<close>

theorem batch_larger_than_pool:
  assumes "init harmonicClient n = Inr self0"
    and "list_all paired history"
    and "sorted (map submitted_at history @ [clock w])"
    and "self = after_batches self0 history"
    and "earlier = futures_of_batches self0 history"
    and "length ps = length cs"
    and "fs = futures_of self lat w cs ps"
  shows "length fs = length cs \<and>
     (\<forall>i<length cs. outcome (fs ! i) = (cs ! i) (ps ! i) \<and>
        finish (fs ! i) = started (fs ! i) + lat i \<and> clock w \<le> started (fs ! i)) \<and>
     (\<forall>t. length (running (earlier @ fs) t) \<le> nat n) \<and>
     (\<forall>i<length cs. \<forall>t. clock w \<le> t \<and> t < started (fs ! i) \<longrightarrow>
        length (running (earlier @ take i fs) t) = nat n) \<and>
     (\<forall>i<length cs. length (running (earlier @ take i fs) (started (fs ! i))) < nat n) \<and>
     (\<forall>i<length cs. started (fs ! i) = clock w \<or>
        (\<exists>f \<in> set (earlier @ take i fs). started (fs ! i) = finish f)) \<and>
     (\<forall>e. answer (parralelizeCallables self lat w cs ps) = Inl e \<longrightarrow>
        (\<exists>i<length cs. (cs ! i) (ps ! i) = Inl e)) \<and>
     ((\<forall>i<length cs. \<exists>v. (cs ! i) (ps ! i) = Inr v) \<longrightarrow>
        (\<exists>rs. answer (parralelizeCallables self lat w cs ps) = Inr rs \<and>
           length rs = length cs \<and> (\<forall>i<length cs. (cs ! i) (ps ! i) = Inr (rs ! i))))"
proof -
  let ?c = "\<lambda>t. length (running earlier t)"
  let ?self' = "wrapper_after (parralelizeCallables self lat w cs ps)"
  from init_pool [OF assms(1)] have w0: "length (workers (pool self0)) = nat n" by simp
  have b0: "busy (pool self0) t = []" for t by (rule init_not_busy [OF assms(1)])
  from assms(3) have "sorted (0 # map submitted_at history @ [clock w])" by simp
  moreover have "\<forall>t. length (running [] t) \<le> length (busy (pool self0) t)"
    by (simp add: running_def)
  moreover have "\<forall>t\<ge>0. length (running [] t) = length (busy (pool self0) t)"
    by (simp add: running_def b0)
  ultimately have h: "(\<forall>t. length (running ([] @ futures_of_batches self0 history) t) \<le>
            length (busy (pool (after_batches self0 history)) t)) \<and>
     (\<forall>t\<ge>clock w. length (running ([] @ futures_of_batches self0 history) t) =
            length (busy (pool (after_batches self0 history)) t)) \<and>
     length (workers (pool (after_batches self0 history))) = length (workers (pool self0))"
    by (rule history_invariant [OF assms(2)])
  from h assms(4,5) have B: "\<forall>t. ?c t \<le> length (busy (pool self) t)" by simp
  from h assms(4,5) have E: "\<forall>t\<ge>clock w. ?c t = length (busy (pool self) t)" by simp
  from h assms(4) w0 have W: "length (workers (pool self)) = nat n" by simp
  note bs = batch_schedule [OF assms(6) B E, of lat, folded assms(7), unfolded W]
  from bs have len: "length fs = length cs" by blast
  from bs have nth: "\<forall>i<length cs. outcome (fs ! i) = (cs ! i) (ps ! i) \<and>
        finish (fs ! i) = started (fs ! i) + lat i \<and> clock w \<le> started (fs ! i)"
    by blast
  have ceil: "length (running (earlier @ fs) t) \<le> nat n" for t
  proof -
    from bs have "length (running fs t) + ?c t \<le> length (busy (pool ?self') t)" by blast
    also have "\<dots> \<le> length (workers (pool ?self'))" by (rule busy_le)
    also from bs have "\<dots> = nat n" by blast
    finally show ?thesis by (simp add: running_lists)
  qed
  from bs have wait: "\<forall>i<length cs. \<forall>t. clock w \<le> t \<and> t < started (fs ! i) \<longrightarrow>
        length (running (earlier @ take i fs) t) = nat n"
    by (simp add: running_lists add.commute)
  from bs have free: "\<forall>i<length cs.
        length (running (earlier @ take i fs) (started (fs ! i))) < nat n"
    by (simp add: running_lists add.commute)
  have freed: "started (fs ! i) = clock w \<or>
        (\<exists>f \<in> set (earlier @ take i fs). started (fs ! i) = finish f)"
    if i: "i < length cs" for i
  proof (cases "started (fs ! i) = clock w")
    case True
    then show ?thesis by simp
  next
    case False
    with nth i have lt: "clock w < started (fs ! i)" by fastforce
    define t where "t = started (fs ! i) - 1"
    from lt have t: "clock w \<le> t" "t < started (fs ! i)" "started (fs ! i) \<le> Suc t"
      by (simp_all add: t_def)
    from wait i t have "length (running (earlier @ take i fs) t) = nat n" by blast
    moreover from free i have "length (running (earlier @ take i fs) (started (fs ! i))) < nat n"
      by blast
    ultimately have "length (running (earlier @ take i fs) (started (fs ! i))) <
        length (running (earlier @ take i fs) t)"
      by simp
    from starts_when_freed [OF t(2,3) this] show ?thesis by metis
  qed
  from assms(6) have a: "answer (parralelizeCallables self lat w cs ps) = gather (units cs ps)"
    by (simp add: engine_answer)
  have err: "\<exists>i<length cs. (cs ! i) (ps ! i) = Inl e" if "gather (units cs ps) = Inl e" for e
    using that by (rule gather_Inl_unit)
  have ok: "\<exists>rs. gather (units cs ps) = Inr rs \<and>
           length rs = length cs \<and> (\<forall>i<length cs. (cs ! i) (ps ! i) = Inr (rs ! i))"
    if "\<forall>i<length cs. \<exists>v. (cs ! i) (ps ! i) = Inr v"
  proof -
    from that obtain rs where rs: "gather (units cs ps) = Inr rs"
      using gather_units_ok by blast
    with gather_Inr_aligned [OF rs] show ?thesis by blast
  qed
  from len nth ceil wait free freed err ok show ?thesis unfolding a by blast
qed

lemma history_sample_wrapper:
  "after_batches wrapper_sample history_sample = wrapper_sample\<lparr>pool := Pool 150 [500]\<rparr>"
  by (simp add: history_sample_def wrapper_after_def parralelizeCallables_def submit_def
      wrapper_sample_def world_sample_def lat_sample_def double_def future_done_def
      future_result_def)

lemma history_sample_futures:
  "futures_of_batches wrapper_sample history_sample =
     [\<lparr>started = 0, finish = 500, outcome = Inr (Some 6)\<rparr>,
      \<lparr>started = 0, finish = 100, outcome = Inr (Some 8)\<rparr>,
      \<lparr>started = 100, finish = 150, outcome = Inr (Some 10)\<rparr>]"
  by (simp add: history_sample_def futures_of_def submit_def
      wrapper_sample_def world_sample_def lat_sample_def double_def)

lemma later_futures:
  "futures_of (after_batches wrapper_sample history_sample) (\<lambda>i. 100) world_later
     [double, double, double] [[3], [4], [5]] =
     [\<lparr>started = 200, finish = 300, outcome = Inr (Some 6)\<rparr>,
      \<lparr>started = 300, finish = 400, outcome = Inr (Some 8)\<rparr>,
      \<lparr>started = 400, finish = 500, outcome = Inr (Some 10)\<rparr>]"
  by (simp add: history_sample_wrapper)
     (simp add: futures_of_def submit_def wrapper_sample_def world_later_def double_def)

theorem batch_larger_than_pool_witness:
  "init client_sample 2 = Inr wrapper_sample \<and>
   list_all paired history_sample \<and>
   sorted (map submitted_at history_sample @ [clock world_later]) \<and>
   pool (after_batches wrapper_sample history_sample) = Pool 150 [500] \<and>
   nat 2 < length [double, double, double] \<and>
   map (\<lambda>f. (started f, finish f)) (futures_of_batches wrapper_sample history_sample) =
     [(0, 500), (0, 100), (100, 150)] \<and>
   map (\<lambda>f. (started f, finish f))
     (futures_of (after_batches wrapper_sample history_sample) (\<lambda>i. 100) world_later
        [double, double, double] [[3], [4], [5]]) = [(200, 300), (300, 400), (400, 500)] \<and>
   (\<forall>t. length (running
        (futures_of_batches wrapper_sample history_sample @
         futures_of (after_batches wrapper_sample history_sample) (\<lambda>i. 100) world_later
           [double, double, double] [[3], [4], [5]]) t) \<le> nat 2) \<and>
   length (running
        (futures_of_batches wrapper_sample history_sample @
         take 1 (futures_of (after_batches wrapper_sample history_sample) (\<lambda>i. 100) world_later
           [double, double, double] [[3], [4], [5]])) 250) = nat 2 \<and>
   answer (parralelizeCallables (after_batches wrapper_sample history_sample) (\<lambda>i. 100)
             world_later [double, double, double] [[3], [4], [5]]) =
     Inr [Some 6, Some 8, Some 10]"
proof -
  let ?cs = "[double, double, double]" and ?ps = "[[3], [4], [5 :: int]]"
  let ?self = "after_batches wrapper_sample history_sample"
  let ?E = "futures_of_batches wrapper_sample history_sample"
  let ?F = "futures_of ?self (\<lambda>i. 100) world_later ?cs ?ps"
  have i: "init client_sample 2 = Inr wrapper_sample"
    by (simp add: init_def ThreadPoolExecutor_def wrapper_sample_def)
  have pa: "list_all paired history_sample"
    by (simp add: history_sample_def paired_def)
  have so: "sorted (map submitted_at history_sample @ [clock world_later])"
    by (simp add: history_sample_def submitted_at_def world_sample_def world_later_def)
  have l: "length ?ps = length ?cs" by simp
  note t = batch_larger_than_pool [OF i pa so refl refl l refl, of "\<lambda>i. 100"]
  from t have c: "\<forall>t. length (running (?E @ ?F) t) \<le> nat 2" by blast
  from t have "\<forall>i<length ?cs. \<forall>t. clock world_later \<le> t \<and> t < started (?F ! i) \<longrightarrow>
        length (running (?E @ take i ?F) t) = nat 2"
    by blast
  moreover have "(1 :: nat) < length ?cs" by simp
  ultimately have "\<forall>t. clock world_later \<le> t \<and> t < started (?F ! 1) \<longrightarrow>
        length (running (?E @ take 1 ?F) t) = nat 2"
    by blast
  moreover have "clock world_later = 200" by (simp add: world_later_def)
  moreover have "started (?F ! 1) = 300" by (simp add: later_futures)
  ultimately have w: "length (running (?E @ take 1 ?F) 250) = nat 2"
    by simp
  have p: "pool ?self = Pool 150 [500]" by (simp add: history_sample_wrapper)
  have e: "map (\<lambda>f. (started f, finish f)) ?E = [(0, 500), (0, 100), (100, 150)]"
    by (simp add: history_sample_futures)
  have f: "map (\<lambda>f. (started f, finish f)) ?F = [(200, 300), (300, 400), (400, 500)]"
    by (simp add: later_futures)
  have "answer (parralelizeCallables ?self (\<lambda>i. 100) world_later ?cs ?ps) =
      gather (units ?cs ?ps)"
    by (simp add: engine_answer)
  also have "\<dots> = Inr [Some 6, Some 8, Some 10]"
    by (simp add: units_def double_def)
  finally have a: "answer (parralelizeCallables ?self (\<lambda>i. 100) world_later ?cs ?ps) =
      Inr [Some 6, Some 8, Some 10]" .
  have n: "nat 2 < length ?cs" by simp
  from i pa so p n e f c w a show ?thesis by blast
qed

section \<open>The lists of the caller\<close>

lemma extends_refl: "extends s s"
  by (simp add: extends_def)

lemma extends_trans: "extends s s' \<Longrightarrow> extends s' s'' \<Longrightarrow> extends s s''"
  by (auto simp: extends_def)

lemma new_list_extends: "new_list s l = (s', a) \<Longrightarrow> extends s s'"
  by (auto simp: new_list_def extends_def)

lemma append_future_frame:
  assumes "append_future s l f = Inr s'"
  shows "fresh s' = fresh s \<and> (\<forall>a. a \<noteq> l \<longrightarrow> list_at s' a = list_at s a)"
proof -
  from assms obtain fs where "s' = s\<lparr>list_at := (list_at s)(l := Futures (fs @ [f]))\<rparr>"
    by (cases "futures_at s l") (auto simp: append_future_def)
  then show ?thesis by simp
qed

lemma append_callable_frame:
  assumes "append_callable s l c = Inr s'"
  shows "fresh s' = fresh s \<and> (\<forall>a. a \<noteq> l \<longrightarrow> list_at s' a = list_at s a)"
proof -
  from assms obtain cs where "s' = s\<lparr>list_at := (list_at s)(l := Callables (cs @ [c]))\<rparr>"
    by (cases "callables_at s l") (auto simp: append_callable_def)
  then show ?thesis by simp
qed

lemma submit_all_st_frame:
  "fresh (snd (snd (submit_all_st lat now lc lp lf is pl s))) = fresh s \<and>
   (\<forall>a. a \<noteq> lf \<longrightarrow> list_at (snd (snd (submit_all_st lat now lc lp lf is pl s))) a = list_at s a)"
proof (induction "is" arbitrary: pl s)
  case Nil
  show ?case by simp
next
  case (Cons i "is")
  show ?case
  proof (cases "callables_at s lc")
    case None
    then show ?thesis by simp
  next
    case (Some cs)
    note cs = this
    show ?thesis
    proof (cases "tuples_at s lp")
      case None
      with cs show ?thesis by simp
    next
      case (Some ps)
      note ps = this
      show ?thesis
      proof (cases "i < length cs \<and> i < length ps")
        case False
        with cs ps show ?thesis by auto
      next
        case True
        obtain pl1 f where s: "submit pl now (lat i) ((cs ! i) (ps ! i)) = (pl1, f)"
          by (cases "submit pl now (lat i) ((cs ! i) (ps ! i))")
        show ?thesis
        proof (cases "append_future s lf f")
          case (Inl e)
          with cs ps True s show ?thesis by simp
        next
          case (Inr s1)
          from append_future_frame [OF Inr]
          have a: "fresh s1 = fresh s" "\<forall>a. a \<noteq> lf \<longrightarrow> list_at s1 a = list_at s a"
            by blast+
          let ?s' = "snd (snd (submit_all_st lat now lc lp lf is pl1 s1))"
          from Cons.IH [of pl1 s1]
          have b: "fresh ?s' = fresh s1" "\<forall>a. a \<noteq> lf \<longrightarrow> list_at ?s' a = list_at s1 a"
            by blast+
          from a b have "fresh ?s' = fresh s \<and> (\<forall>a. a \<noteq> lf \<longrightarrow> list_at ?s' a = list_at s a)"
            by simp
          with cs ps True s Inr show ?thesis by simp
        qed
      qed
    qed
  qed
qed

lemma append_callables_st_frame:
  assumes "append_callables_st c is l s = Inr s'"
  shows "fresh s' = fresh s \<and> (\<forall>a. a \<noteq> l \<longrightarrow> list_at s' a = list_at s a)"
  using assms
proof (induction "is" arbitrary: s)
  case Nil
  then show ?case by simp
next
  case (Cons i "is")
  from Cons.prems obtain s1 where a: "append_callable s l c = Inr s1"
    and r: "append_callables_st c is l s1 = Inr s'"
    by (cases "append_callable s l c") simp_all
  from append_callable_frame [OF a]
  have a': "fresh s1 = fresh s" "\<forall>a. a \<noteq> l \<longrightarrow> list_at s1 a = list_at s a"
    by blast+
  from Cons.IH [OF r]
  have b: "fresh s' = fresh s1" "\<forall>a. a \<noteq> l \<longrightarrow> list_at s' a = list_at s1 a"
    by blast+
  from a' b show ?case by simp
qed

lemma parralelizeCallables_st_extends:
  "extends s (store_after (parralelizeCallables_st self lat w s lc lp))"
proof -
  let ?lf = "fresh s"
  let ?s1 = "s\<lparr>list_at := (list_at s)(fresh s := Futures []), fresh := Suc (fresh s)\<rparr>"
  have n: "new_list s (Futures []) = (?s1, ?lf)" by (simp add: new_list_def)
  have e1: "extends s ?s1" by (simp add: extends_def)
  show ?thesis
  proof (cases "callables_at ?s1 lc")
    case None
    with n e1 show ?thesis by (simp add: parralelizeCallables_st_def store_after_def)
  next
    case (Some cs)
    obtain r pl s2 where sa:
      "submit_all_st lat (clock w) lc lp ?lf [0..<length cs] (pool self) ?s1 = (r, pl, s2)"
      by (cases "submit_all_st lat (clock w) lc lp ?lf [0..<length cs] (pool self) ?s1") auto
    from submit_all_st_frame [of lat "clock w" lc lp ?lf "[0..<length cs]" "pool self" ?s1] sa
    have f2: "fresh s2 = Suc (fresh s)" and l2: "\<forall>a. a \<noteq> ?lf \<longrightarrow> list_at s2 a = list_at ?s1 a"
      by simp_all
    then have e2: "extends s s2" by (simp add: extends_def)
    have e3: "extends s s3" if "new_list s2 l = (s3, a)" for l s3 a
      using e2 new_list_extends [OF that] by (rule extends_trans)
    show ?thesis
    proof (cases r)
      case (Inl e)
      with n Some sa e2 show ?thesis
        by (simp add: parralelizeCallables_st_def store_after_def)
    next
      case (Inr u)
      show ?thesis
      proof (cases "futures_at s2 ?lf")
        case None
        with n Some sa Inr e2 show ?thesis
          by (simp add: parralelizeCallables_st_def store_after_def)
      next
        case (Some fs)
        note fs = this
        obtain r' t where c: "collect fs (clock (wait_loop fs False w)) = (r', t)"
          by fastforce
        show ?thesis
        proof (cases r')
          case (Inl e)
          with n \<open>callables_at ?s1 lc = Some cs\<close> sa Inr fs c e2 show ?thesis
            by (simp add: parralelizeCallables_st_def store_after_def Let_def)
        next
          case (Inr vs)
          obtain s3 a where n3: "new_list s2 (Values vs) = (s3, a)"
            by (cases "new_list s2 (Values vs)")
          from e3 [OF n3] n \<open>callables_at ?s1 lc = Some cs\<close> sa \<open>r = Inr u\<close> fs c Inr n3
          show ?thesis
            by (simp add: parralelizeCallables_st_def store_after_def Let_def)
        qed
      qed
    qed
  qed
qed

lemma batched_tail_extends:
  assumes e: "extends s s2" and l: "fresh s \<le> l"
  shows "extends s (store_after
           (case append_callables_st c is l s2 of
              Inl e \<Rightarrow> (Inl e, self, w, s2)
            | Inr s3 \<Rightarrow> parralelizeCallables_st self lat w s3 l lp))"
proof (cases "append_callables_st c is l s2")
  case (Inl x)
  with e show ?thesis by (simp add: store_after_def)
next
  case (Inr s3)
  from append_callables_st_frame [OF Inr]
  have f: "fresh s3 = fresh s2" and u: "\<forall>a. a \<noteq> l \<longrightarrow> list_at s3 a = list_at s2 a"
    by blast+
  have "extends s s3"
    unfolding extends_def
  proof (intro conjI allI impI)
    from e f show "fresh s \<le> fresh s3" by (simp add: extends_def)
  next
    fix a assume a: "a < fresh s"
    with l have "a \<noteq> l" by simp
    with u have "list_at s3 a = list_at s2 a" by simp
    also from e a have "\<dots> = list_at s a" by (simp add: extends_def)
    finally show "list_at s3 a = list_at s a" .
  qed
  moreover have "extends s3 (store_after (parralelizeCallables_st self lat w s3 l lp))"
    by (rule parralelizeCallables_st_extends)
  ultimately have "extends s (store_after (parralelizeCallables_st self lat w s3 l lp))"
    by (rule extends_trans)
  with Inr show ?thesis by simp
qed

lemma enrich_companies_st_extends:
  "extends s (store_after (enrich_companies_st self lat w s l))"
proof (cases "items_at s l")
  case None
  then show ?thesis by (simp add: enrich_companies_st_def store_after_def extends_refl)
next
  case (Some urls)
  obtain s1 a1 where n1: "new_list s (Tuples (map (\<lambda>urlArg. [urlArg]) urls)) = (s1, a1)"
    by (cases "new_list s (Tuples (map (\<lambda>urlArg. [urlArg]) urls))")
  obtain s2 a2 where n2: "new_list s1 (Callables []) = (s2, a2)"
    by (cases "new_list s1 (Callables [])")
  from n1 n2 have "extends s s2" by (blast intro: new_list_extends extends_trans)
  moreover from n1 n2 have "fresh s \<le> a2" by (auto simp: new_list_def)
  ultimately have "extends s (store_after
           (case append_callables_st (client_enrich_company (rawClient self)) [0..<length urls] a2 s2 of
              Inl e \<Rightarrow> (Inl e, self, w, s2)
            | Inr s3 \<Rightarrow> parralelizeCallables_st self lat w s3 a2 a1))"
    by (rule batched_tail_extends)
  with Some n1 n2 show ?thesis by (simp add: enrich_companies_st_def)
qed

lemma enrich_people_st_extends:
  "extends s (store_after (enrich_people_st self lat w s l))"
proof (cases "items_at s l")
  case None
  then show ?thesis by (simp add: enrich_people_st_def store_after_def extends_refl)
next
  case (Some urls)
  obtain s1 a1 where n1: "new_list s (Tuples (map (\<lambda>url. [url]) urls)) = (s1, a1)"
    by (cases "new_list s (Tuples (map (\<lambda>url. [url]) urls))")
  obtain s2 a2 where n2: "new_list s1 (Callables []) = (s2, a2)"
    by (cases "new_list s1 (Callables [])")
  from n1 n2 have "extends s s2" by (blast intro: new_list_extends extends_trans)
  moreover from n1 n2 have "fresh s \<le> a2" by (auto simp: new_list_def)
  ultimately have "extends s (store_after
           (case append_callables_st (client_enrich_person (rawClient self)) [0..<length urls] a2 s2 of
              Inl e \<Rightarrow> (Inl e, self, w, s2)
            | Inr s3 \<Rightarrow> parralelizeCallables_st self lat w s3 a2 a1))"
    by (rule batched_tail_extends)
  with Some n1 n2 show ?thesis by (simp add: enrich_people_st_def)
qed

lemma batch_searches_st_extends:
  "extends s (store_after (batch_searches_st self lat w s l))"
proof (cases "tuples_at s l")
  case None
  then show ?thesis by (simp add: batch_searches_st_def store_after_def extends_refl)
next
  case (Some tuples)
  obtain s1 a1 where n1: "new_list s (Callables []) = (s1, a1)"
    by (cases "new_list s (Callables [])")
  then have "extends s s1" by (rule new_list_extends)
  moreover from n1 have "fresh s \<le> a1" by (auto simp: new_list_def)
  ultimately have "extends s (store_after
           (case append_callables_st (client_search (rawClient self)) [0..<length tuples] a1 s1 of
              Inl e \<Rightarrow> (Inl e, self, w, s1)
            | Inr s2 \<Rightarrow> parralelizeCallables_st self lat w s2 a1 l))"
    by (rule batched_tail_extends)
  with Some n1 show ?thesis by (simp add: batch_searches_st_def)
qed

lemma batch_safe_get_company_by_urn_st_extends:
  "extends s (store_after (batch_safe_get_company_by_urn_st self lat w s l))"
proof (cases "items_at s l")
  case None
  then show ?thesis
    by (simp add: batch_safe_get_company_by_urn_st_def store_after_def extends_refl)
next
  case (Some urns)
  let ?cs = "Callables (map (\<lambda>i. bound1 (safe_get_company_by_urn self)) [0..<length urns])"
  obtain s1 a1 where n1: "new_list s (Tuples (map (\<lambda>urn. [urn]) urns)) = (s1, a1)"
    by (cases "new_list s (Tuples (map (\<lambda>urn. [urn]) urns))")
  obtain s2 a2 where n2: "new_list s1 ?cs = (s2, a2)"
    by (cases "new_list s1 ?cs")
  from n1 n2 have "extends s s2" by (blast intro: new_list_extends extends_trans)
  moreover have "extends s2 (store_after (parralelizeCallables_st self lat w s2 a2 a1))"
    by (rule parralelizeCallables_st_extends)
  ultimately have "extends s (store_after (parralelizeCallables_st self lat w s2 a2 a1))"
    by (rule extends_trans)
  with Some n1 n2 show ?thesis by (simp add: batch_safe_get_company_by_urn_st_def)
qed

lemma submit_all_st_agrees:
  assumes "callables_at s lc = Some cs" and "tuples_at s lp = Some ps"
    and "futures_at s lf = Some futs"
  shows "case submit_all lat now cs ps is pl futs of
           (Inl e, pl') \<Rightarrow> (\<exists>s'. submit_all_st lat now lc lp lf is pl s = (Inl e, pl', s'))
         | (Inr futs', pl') \<Rightarrow>
             (\<exists>s'. submit_all_st lat now lc lp lf is pl s = (Inr (), pl', s') \<and>
                   futures_at s' lf = Some futs')"
  using assms
proof (induction "is" arbitrary: pl s futs)
  case Nil
  then show ?case by simp
next
  case (Cons i "is")
  show ?case
  proof (cases "i < length cs \<and> i < length ps")
    case False
    with Cons.prems show ?thesis by auto
  next
    case True
    obtain pl1 f where s: "submit pl now (lat i) ((cs ! i) (ps ! i)) = (pl1, f)"
      by (cases "submit pl now (lat i) ((cs ! i) (ps ! i))")
    let ?s1 = "s\<lparr>list_at := (list_at s)(lf := Futures (futs @ [f]))\<rparr>"
    from Cons.prems(3) have a: "append_future s lf f = Inr ?s1"
      by (simp add: append_future_def)
    from Cons.prems(1,3) have "lc \<noteq> lf"
      by (auto simp: callables_at_def futures_at_def split: pylist.splits)
    with Cons.prems(1) have c1: "callables_at ?s1 lc = Some cs"
      by (simp add: callables_at_def)
    from Cons.prems(2,3) have "lp \<noteq> lf"
      by (auto simp: tuples_at_def futures_at_def split: pylist.splits)
    with Cons.prems(2) have p1: "tuples_at ?s1 lp = Some ps"
      by (simp add: tuples_at_def)
    have f1: "futures_at ?s1 lf = Some (futs @ [f])"
      by (simp add: futures_at_def)
    from Cons.prems(1,2) True s a have st:
      "submit_all_st lat now lc lp lf (i # is) pl s = submit_all_st lat now lc lp lf is pl1 ?s1"
      by simp
    from True s have pu:
      "submit_all lat now cs ps (i # is) pl futs = submit_all lat now cs ps is pl1 (futs @ [f])"
      by simp
    show ?thesis unfolding st pu by (rule Cons.IH [OF c1 p1 f1])
  qed
qed

lemma parralelizeCallables_st_agrees:
  assumes c: "callables_at s lc = Some cs" and p: "tuples_at s lp = Some ps"
    and lc: "lc < fresh s" and lp: "lp < fresh s"
  shows "case parralelizeCallables self lat w cs ps of
           (r, self', w') \<Rightarrow>
             (\<exists>r' s'. parralelizeCallables_st self lat w s lc lp = (r', self', w', s') \<and>
                (case r of
                   Inl e \<Rightarrow> r' = Inl e
                 | Inr vs \<Rightarrow> (\<exists>a. r' = Inr a \<and> list_at s' a = Values vs)))"
proof -
  let ?lf = "fresh s"
  let ?s1 = "s\<lparr>list_at := (list_at s)(fresh s := Futures []), fresh := Suc (fresh s)\<rparr>"
  have n: "new_list s (Futures []) = (?s1, ?lf)" by (simp add: new_list_def)
  from c lc have c1: "callables_at ?s1 lc = Some cs" by (simp add: callables_at_def)
  from p lp have p1: "tuples_at ?s1 lp = Some ps" by (simp add: tuples_at_def)
  have f1: "futures_at ?s1 ?lf = Some []" by (simp add: futures_at_def)
  note ag = submit_all_st_agrees [OF c1 p1 f1, of lat "clock w" "[0..<length cs]" "pool self"]
  obtain r0 pl where sa: "submit_all lat (clock w) cs ps [0..<length cs] (pool self) [] = (r0, pl)"
    by (cases "submit_all lat (clock w) cs ps [0..<length cs] (pool self) []")
  show ?thesis
  proof (cases r0)
    case (Inl e)
    with ag sa obtain s2 where
      "submit_all_st lat (clock w) lc lp ?lf [0..<length cs] (pool self) ?s1 = (Inl e, pl, s2)"
      by auto
    with n c1 sa Inl show ?thesis
      by (simp add: parralelizeCallables_def parralelizeCallables_st_def)
  next
    case (Inr futs)
    with ag sa obtain s2 where
      st: "submit_all_st lat (clock w) lc lp ?lf [0..<length cs] (pool self) ?s1 = (Inr (), pl, s2)"
      and f2: "futures_at s2 ?lf = Some futs"
      by auto
    obtain r1 t where co: "collect futs (clock (wait_loop futs False w)) = (r1, t)"
      by fastforce
    show ?thesis
    proof (cases r1)
      case (Inl e)
      with n c1 sa \<open>r0 = Inr futs\<close> st f2 co show ?thesis
        by (simp add: parralelizeCallables_def parralelizeCallables_st_def Let_def)
    next
      case (Inr vs)
      with n c1 sa \<open>r0 = Inr futs\<close> st f2 co show ?thesis
        by (simp add: parralelizeCallables_def parralelizeCallables_st_def Let_def new_list_def)
    qed
  qed
qed

lemma store_sample_run:
  "fst (parralelizeCallables_st wrapper_sample lat_sample world_sample store_sample 0 1) = Inr 4 \<and>
   list_at (store_after (parralelizeCallables_st wrapper_sample lat_sample world_sample
                           store_sample 0 1)) 4 = Values [Some 6, Some 8, Some 10] \<and>
   list_at (store_after (parralelizeCallables_st wrapper_sample lat_sample world_sample
                           store_sample 0 1)) 3 =
     Futures [\<lparr>started = 0, finish = 500, outcome = Inr (Some 6)\<rparr>,
              \<lparr>started = 0, finish = 100, outcome = Inr (Some 8)\<rparr>,
              \<lparr>started = 100, finish = 150, outcome = Inr (Some 10)\<rparr>]"
  by (simp add: parralelizeCallables_st_def store_after_def new_list_def store_sample_def
      callables_at_def tuples_at_def futures_at_def append_future_def submit_def
      wrapper_sample_def world_sample_def lat_sample_def double_def future_done_def
      future_result_def)

section \<open>No mutation of the inputs\<close>

text \<open>
  C8. A call of \<^verbatim>\<open>_parralelizeCallables\<close>, or of one of the batched entries of the
  catalog, leaves every list object that exists before the call as it is: the store after
  the call extends the store before it. The lists of the caller, the list of callables and
  the list of parameter tuples of the engine and the input list of a catalog entry, exist
  before the call, so they are unchanged. The lists that the call appends to are the ones
  it has made itself.
\<close>

theorem inputs_not_mutated:
  "extends s (store_after (parralelizeCallables_st self lat w s listOfCallables listOfParamTuples)) \<and>
   extends s (store_after (enrich_companies_st self lat w s url_or_enrichment_requests)) \<and>
   extends s (store_after (enrich_people_st self lat w s listOfURLS)) \<and>
   extends s (store_after (batch_searches_st self lat w s listOfArgTuples)) \<and>
   extends so (store_after (batch_safe_get_company_by_urn_st selfo lat w so listOfURNs))"
  by (intro conjI parralelizeCallables_st_extends enrich_companies_st_extends
      enrich_people_st_extends batch_searches_st_extends batch_safe_get_company_by_urn_st_extends)

theorem inputs_not_mutated_witness:
  "(0 :: nat) < fresh store_sample \<and> (1 :: nat) < fresh store_sample \<and>
   (2 :: nat) < fresh store_sample \<and>
   list_at (store_after (parralelizeCallables_st wrapper_sample lat_sample world_sample
                           store_sample 0 1)) 0 = Callables [double, double, double] \<and>
   list_at (store_after (parralelizeCallables_st wrapper_sample lat_sample world_sample
                           store_sample 0 1)) 1 = Tuples [[3], [4], [5]] \<and>
   list_at (store_after (enrich_companies_st wrapper_sample lat_sample world_sample
                           store_sample 2)) 2 = Items [3, 4, 5]"
proof -
  note t = inputs_not_mutated [of store_sample wrapper_sample lat_sample world_sample 0 1 2 2 2
      store_sample wrapper_sample 2]
  have f: "fresh store_sample = 3" by (simp add: store_sample_def)
  from t have e: "\<forall>a<fresh store_sample.
      list_at (store_after (parralelizeCallables_st wrapper_sample lat_sample world_sample
                           store_sample 0 1)) a = list_at store_sample a"
    by (simp add: extends_def)
  from t have c: "\<forall>a<fresh store_sample.
      list_at (store_after (enrich_companies_st wrapper_sample lat_sample world_sample
                           store_sample 2)) a = list_at store_sample a"
    by (simp add: extends_def)
  have l: "list_at store_sample 0 = Callables [double, double, double]"
    "list_at store_sample 1 = Tuples [[3], [4], [5]]"
    "list_at store_sample 2 = Items [3, 4, 5]"
    by (simp_all add: store_sample_def)
  from e f have "list_at (store_after (parralelizeCallables_st wrapper_sample lat_sample
      world_sample store_sample 0 1)) 0 = list_at store_sample 0" by simp
  moreover from e f have "list_at (store_after (parralelizeCallables_st wrapper_sample lat_sample
      world_sample store_sample 0 1)) 1 = list_at store_sample 1" by simp
  moreover from c f have "list_at (store_after (enrich_companies_st wrapper_sample lat_sample
      world_sample store_sample 2)) 2 = list_at store_sample 2" by simp
  ultimately show ?thesis using f l by simp
qed

end
